theory Spec2Isabelle
  imports Main "HOL-Library.Multiset"
begin

section \<open>Values, errors and frames\<close>

text \<open>
  The executor of \<^verbatim>\<open>ibis/backends/dask/executor.py\<close> works on pandas frames (one
  in-memory batch) and on dask frames (a sequence of pandas batches with one shared list of
  column labels).  A cell is a null, an integer, a boolean or a string; floating point
  cells are outside this development.  Frames are row oriented and carry no index: a row is
  addressed by its position, so \<^verbatim>\<open>reset_index(drop=True)\<close> leaves a frame as it is.
\<close>

datatype val = VNull | VInt int | VBool bool | VStr string

datatype error =
    KeyError string
  | IndexError
  | ValueError string
  | TypeError
  | AttributeError
  | AssertionError
  | UnsupportedOperationError string
  | UnboundExpressionError string string

record pdf =
  columns :: "string list"
  rows :: "val list list"

record ddf =
  dcolumns :: "string list"
  partitions :: "val list list list"

text \<open>The batch held by partition \<open>p\<close> of a dask frame, and \<^verbatim>\<open>compute()\<close>.\<close>

definition batch :: "string list \<Rightarrow> val list list \<Rightarrow> pdf" where
  "batch cs p = \<lparr>columns = cs, rows = p\<rparr>"

definition compute :: "ddf \<Rightarrow> pdf" where
  "compute d = \<lparr>columns = dcolumns d, rows = concat (partitions d)\<rparr>"

text \<open>\<^verbatim>\<open>len(df)\<close> of a dask frame counts the rows of all partitions.\<close>

definition dd_len :: "ddf \<Rightarrow> nat" where
  "dd_len d = length (concat (partitions d))"

fun map_err :: "('a \<Rightarrow> error + 'b) \<Rightarrow> 'a list \<Rightarrow> error + 'b list" where
  "map_err f [] = Inr []"
| "map_err f (x # xs) =
     (case f x of
        Inl e \<Rightarrow> Inl e
      | Inr y \<Rightarrow> (case map_err f xs of Inl e \<Rightarrow> Inl e | Inr ys \<Rightarrow> Inr (y # ys)))"

subsection \<open>The pandas operations the executor calls\<close>

text \<open>
  \<^verbatim>\<open>df[col]\<close>: a label that is absent raises \<^verbatim>\<open>KeyError\<close>.  A label that occurs
  more than once selects a frame, not a series, and the series operations that the executor
  applies to the selection (\<^verbatim>\<open>argmax\<close>, \<^verbatim>\<open>between\<close>, \<^verbatim>\<open>corr\<close>) do not exist on a
  frame: the selection is modelled as raising \<^verbatim>\<open>AttributeError\<close>.
\<close>

definition col_positions :: "string list \<Rightarrow> string \<Rightarrow> nat list" where
  "col_positions cs c = filter (\<lambda>i. cs ! i = c) [0..<length cs]"

definition getitem :: "pdf \<Rightarrow> string \<Rightarrow> error + val list" where
  "getitem df c =
     (case col_positions (columns df) c of
        [] \<Rightarrow> Inl (KeyError c)
      | [i] \<Rightarrow> Inr (map (\<lambda>r. r ! i) (rows df))
      | _ \<Rightarrow> Inl AttributeError)"

text \<open>\<^verbatim>\<open>df.iloc[i, j]\<close> and \<^verbatim>\<open>df.iat[i, j]\<close> for non-negative positions.\<close>

definition iloc_cell :: "pdf \<Rightarrow> nat \<Rightarrow> nat \<Rightarrow> error + val" where
  "iloc_cell df i j =
     (if i < length (rows df) \<and> j < length (columns df)
      then Inr (rows df ! i ! j) else Inl IndexError)"

text \<open>\<^verbatim>\<open>df.iloc[:, j]\<close>.\<close>

definition iloc_column :: "pdf \<Rightarrow> nat \<Rightarrow> error + val list" where
  "iloc_column df j =
     (if j < length (columns df) then Inr (map (\<lambda>r. r ! j) (rows df)) else Inl IndexError)"

text \<open>\<^verbatim>\<open>df.empty\<close>: some axis has length zero.\<close>

definition empty_pdf :: "pdf \<Rightarrow> bool" where
  "empty_pdf df = (rows df = [] \<or> columns df = [])"

text \<open>\<^verbatim>\<open>df[mask]\<close> and \<^verbatim>\<open>df.loc[mask]\<close> with a boolean mask, on the rows of a batch.\<close>

definition mask_rows :: "'a list \<Rightarrow> bool list \<Rightarrow> 'a list" where
  "mask_rows rs ms = map fst (filter snd (zip rs ms))"

section \<open>Correlation and covariance\<close>

text \<open>
  The translation rule receives the column names \<open>left\<close>, \<open>right\<close>, the optional
  \<open>where\<close> column and the convention \<open>how\<close>.  It raises for \<^verbatim>\<open>how == "pop"\<close> and
  otherwise returns the closure \<open>agg\<close>.  The numeric kernels \<^verbatim>\<open>Series.corr\<close> and
  \<^verbatim>\<open>Series.cov\<close> are floating point; they are the parameter \<open>kern\<close>.
\<close>

text \<open>
  \<^verbatim>\<open>df.where(df[name])\<close>: a row whose mask cell is \<^verbatim>\<open>True\<close> is kept, a row whose
  mask cell is \<^verbatim>\<open>False\<close> has every cell replaced by null; pandas rejects a mask that
  is not boolean with \<^verbatim>\<open>ValueError\<close>.
\<close>

definition mask_cell :: "val \<Rightarrow> error + bool" where
  "mask_cell v = (case v of VBool b \<Rightarrow> Inr b
                  | _ \<Rightarrow> Inl (ValueError ''Boolean array expected for the condition''))"

definition df_where :: "pdf \<Rightarrow> string option \<Rightarrow> error + pdf" where
  "df_where df w =
     (case w of
        None \<Rightarrow> Inr df
      | Some name \<Rightarrow>
          (case getitem df name of
             Inl e \<Rightarrow> Inl e
           | Inr cond \<Rightarrow>
               (case map_err mask_cell cond of
                  Inl e \<Rightarrow> Inl e
                | Inr ms \<Rightarrow>
                    Inr (df\<lparr>rows := map (\<lambda>(r, m). if m then r else map (\<lambda>_. VNull) r)
                                       (zip (rows df) ms)\<rparr>))))"

definition stat_agg ::
  "(val list \<Rightarrow> val list \<Rightarrow> 'r) \<Rightarrow> string \<Rightarrow> string \<Rightarrow> string option \<Rightarrow> pdf \<Rightarrow> error + 'r" where
  "stat_agg kern left right w df =
     (case df_where df w of
        Inl e \<Rightarrow> Inl e
      | Inr df' \<Rightarrow>
          (case getitem df' left of
             Inl e \<Rightarrow> Inl e
           | Inr l \<Rightarrow> (case getitem df' right of Inl e \<Rightarrow> Inl e | Inr r \<Rightarrow> Inr (kern l r))))"

definition visit_Correlation ::
  "(val list \<Rightarrow> val list \<Rightarrow> 'r) \<Rightarrow> string \<Rightarrow> string \<Rightarrow> string option \<Rightarrow> string
    \<Rightarrow> error + (pdf \<Rightarrow> error + 'r)" where
  "visit_Correlation corr left right w how =
     (if how = ''pop''
      then Inl (UnsupportedOperationError ''Dask doesn't support `corr` with `how='pop'`'')
      else Inr (stat_agg corr left right w))"

definition visit_Covariance ::
  "(val list \<Rightarrow> val list \<Rightarrow> 'r) \<Rightarrow> string \<Rightarrow> string \<Rightarrow> string option \<Rightarrow> string
    \<Rightarrow> error + (pdf \<Rightarrow> error + 'r)" where
  "visit_Covariance cov left right w how =
     (if how = ''pop''
      then Inl (UnsupportedOperationError ''Dask doesn't support `cov` with `how='pop'`'')
      else Inr (stat_agg cov left right w))"

section \<open>Table scans\<close>

text \<open>
  \<^verbatim>\<open>source.dictionary[name]\<close>, with the \<^verbatim>\<open>KeyError\<close> of a missing name turned into
  \<^verbatim>\<open>UnboundExpressionError\<close>; the error carries the table name and the backend name
  that the message is formatted from.
\<close>

record source =
  name :: string
  dictionary :: "string \<rightharpoonup> ddf"

definition visit_DatabaseTable :: "string \<Rightarrow> source \<Rightarrow> error + ddf" where
  "visit_DatabaseTable nm src =
     (case dictionary src nm of
        Some t \<Rightarrow> Inr t
      | None \<Rightarrow> Inl (UnboundExpressionError nm (name src)))"

section \<open>Filter\<close>

text \<open>
  A predicate is a boolean dask series, partitioned as the parent is: one list of booleans
  per partition.  \<^verbatim>\<open>operator.and_\<close> works position by position, and
  \<^verbatim>\<open>reduce(operator.and_, predicates)\<close> folds it from the left over a non-empty list.
\<close>

type_synonym bseries = "bool list list"

definition and_series :: "bseries \<Rightarrow> bseries \<Rightarrow> bseries" where
  "and_series p q = map2 (map2 (\<and>)) p q"

definition reduce_and :: "bseries list \<Rightarrow> bseries" where
  "reduce_and ps = foldl and_series (hd ps) (tl ps)"

definition loc_mask :: "ddf \<Rightarrow> bseries \<Rightarrow> ddf" where
  "loc_mask d m = d\<lparr>partitions := map2 mask_rows (partitions d) m\<rparr>"

definition reset_index :: "ddf \<Rightarrow> ddf" where
  "reset_index d = d"

definition visit_Filter :: "ddf \<Rightarrow> bseries list \<Rightarrow> ddf" where
  "visit_Filter parent predicates =
     (if predicates \<noteq> [] then reset_index (loc_mask parent (reduce_and predicates))
      else parent)"

text \<open>A series is aligned with a frame when it has one value for each row of each partition.\<close>

definition aligned :: "ddf \<Rightarrow> 'a list list \<Rightarrow> bool" where
  "aligned d s = (map length s = map length (partitions d))"

text \<open>The rows of a batch at the positions where every predicate holds.\<close>

definition rows_where_all :: "'a list \<Rightarrow> bool list list \<Rightarrow> 'a list" where
  "rows_where_all rs ms =
     map (\<lambda>i. rs ! i) (filter (\<lambda>i. list_all (\<lambda>m. m ! i) ms) [0..<length rs])"

section \<open>Materialising the result\<close>

text \<open>
  \<^verbatim>\<open>execute\<close> compiles the node, materialises the result, converts it to the schema of
  the node and coerces it to the shape of the original expression.  The compiled value is
  a pandas frame, a dask frame or something else; \<^verbatim>\<open>PandasData.convert_table\<close> with
  the node's schema is the parameter \<open>convert_table\<close>.
\<close>

datatype shape = Scalar | Columnar | UnknownShape

datatype original = Value shape | Relation

datatype compiled = PandasFrame pdf | DaskFrame ddf | NoFrame

datatype outcome = Cell val | Column "val list" | Table pdf

definition materialize :: "compiled \<Rightarrow> error + pdf" where
  "materialize res =
     (case res of
        PandasFrame df \<Rightarrow> if empty_pdf df then Inr df else Inl AssertionError
      | DaskFrame d \<Rightarrow> Inr (compute d)
      | NoFrame \<Rightarrow> Inl AssertionError)"

definition coerce :: "original \<Rightarrow> pdf \<Rightarrow> error + outcome" where
  "coerce orig t =
     (case orig of
        Value sh \<Rightarrow>
          (case sh of
             Scalar \<Rightarrow> (case iloc_cell t 0 0 of Inl e \<Rightarrow> Inl e | Inr v \<Rightarrow> Inr (Cell v))
           | Columnar \<Rightarrow> (case iloc_column t 0 of Inl e \<Rightarrow> Inl e | Inr c \<Rightarrow> Inr (Column c))
           | UnknownShape \<Rightarrow> Inl TypeError)
      | Relation \<Rightarrow> Inr (Table t))"

definition execute :: "(pdf \<Rightarrow> error + pdf) \<Rightarrow> original \<Rightarrow> compiled \<Rightarrow> error + outcome" where
  "execute convert_table orig res =
     (case materialize res of
        Inl e \<Rightarrow> Inl e
      | Inr r \<Rightarrow> (case convert_table r of Inl e \<Rightarrow> Inl e | Inr t \<Rightarrow> coerce orig t))"

section \<open>Projection\<close>

text \<open>
  \<^verbatim>\<open>dd.concat\<close> of a list of frames: it raises \<^verbatim>\<open>ValueError\<close> on an empty list;
  the frames the executor passes are copies of one frame, so the result has that frame's
  columns and the partitions of all copies in order.
\<close>

definition dd_concat :: "ddf list \<Rightarrow> error + ddf" where
  "dd_concat dfs =
     (case dfs of
        [] \<Rightarrow> Inl (ValueError ''No objects to concatenate'')
      | d # ds \<Rightarrow> Inr \<lparr>dcolumns = dcolumns d, partitions = concat (map partitions dfs)\<rparr>)"

text \<open>
  \<^verbatim>\<open>cls.asframe(values)\<close> is defined in \<^verbatim>\<open>ibis/backends/dask/helpers.py\<close>; it is
  the parameter \<open>asframe\<close>, which returns the assembled frame and whether every value was a
  scalar.
\<close>

definition visit_Project :: "('v \<Rightarrow> ddf \<times> bool) \<Rightarrow> ddf \<Rightarrow> 'v \<Rightarrow> error + ddf" where
  "visit_Project asframe parent vals =
     (case asframe vals of
        (df, all_scalars) \<Rightarrow>
          if all_scalars \<and> dd_len parent \<noteq> dd_len df
          then dd_concat (replicate (dd_len parent) df)
          else Inr df)"

section \<open>Limit\<close>

text \<open>
  \<^verbatim>\<open>n\<close> and \<^verbatim>\<open>offset\<close> arrive either as a literal (an integer, or \<^verbatim>\<open>None\<close> for
  \<^verbatim>\<open>n\<close>) or as a materialised pandas frame, from which \<^verbatim>\<open>iat[0, 0]\<close> takes the
  scalar.  A null cell of such a frame is read as \<^verbatim>\<open>None\<close>.
\<close>

datatype limit_arg = Literal val | Materialized pdf

definition arg_value :: "limit_arg \<Rightarrow> error + val" where
  "arg_value a = (case a of Literal v \<Rightarrow> Inr v | Materialized f \<Rightarrow> iloc_cell f 0 0)"

text \<open>
  Integer arithmetic and comparison as \<^verbatim>\<open>limit_df\<close> uses them: \<^verbatim>\<open>offset + n - 1\<close>,
  \<^verbatim>\<open>series >= offset\<close> and \<^verbatim>\<open>series.between(lo, hi)\<close> (both ends included).  A
  bound that is not an integer raises \<^verbatim>\<open>TypeError\<close>; a null cell of the series compares
  false.
\<close>

definition int_add :: "val \<Rightarrow> val \<Rightarrow> error + val" where
  "int_add a b = (case (a, b) of (VInt x, VInt y) \<Rightarrow> Inr (VInt (x + y)) | _ \<Rightarrow> Inl TypeError)"

definition ge_scalar :: "val \<Rightarrow> val \<Rightarrow> error + bool" where
  "ge_scalar bound c =
     (case bound of
        VInt b \<Rightarrow> (case c of VInt i \<Rightarrow> Inr (b \<le> i) | VNull \<Rightarrow> Inr False | _ \<Rightarrow> Inl TypeError)
      | _ \<Rightarrow> Inl TypeError)"

definition le_scalar :: "val \<Rightarrow> val \<Rightarrow> error + bool" where
  "le_scalar bound c =
     (case bound of
        VInt b \<Rightarrow> (case c of VInt i \<Rightarrow> Inr (i \<le> b) | VNull \<Rightarrow> Inr False | _ \<Rightarrow> Inl TypeError)
      | _ \<Rightarrow> Inl TypeError)"

definition series_ge :: "val list \<Rightarrow> val \<Rightarrow> error + bool list" where
  "series_ge s bound =
     (case bound of VInt b \<Rightarrow> map_err (ge_scalar bound) s | _ \<Rightarrow> Inl TypeError)"

definition series_between :: "val list \<Rightarrow> val \<Rightarrow> val \<Rightarrow> error + bool list" where
  "series_between s lo hi =
     (case (lo, hi) of
        (VInt l, VInt h) \<Rightarrow>
          map_err (\<lambda>c. case ge_scalar lo c of
                          Inl e \<Rightarrow> Inl e
                        | Inr a \<Rightarrow> (case le_scalar hi c of Inl e \<Rightarrow> Inl e | Inr b \<Rightarrow> Inr (a \<and> b))) s
      | _ \<Rightarrow> Inl TypeError)"

definition getitem_mask :: "pdf \<Rightarrow> bool list \<Rightarrow> pdf" where
  "getitem_mask df m = df\<lparr>rows := mask_rows (rows df) m\<rparr>"

definition limit_df :: "pdf \<Rightarrow> string \<Rightarrow> limit_arg \<Rightarrow> limit_arg \<Rightarrow> error + pdf" where
  "limit_df df col n offset =
     (case arg_value offset of
        Inl e \<Rightarrow> Inl e
      | Inr off \<Rightarrow>
     (case arg_value n of
        Inl e \<Rightarrow> Inl e
      | Inr nv \<Rightarrow>
     (case getitem df col of
        Inl e \<Rightarrow> Inl e
      | Inr ids \<Rightarrow>
          if nv = VNull
          then (case series_ge ids off of
                  Inl e \<Rightarrow> Inl e
                | Inr m \<Rightarrow> Inr (getitem_mask df m))
          else (case int_add off nv of
                  Inl e \<Rightarrow> Inl e
                | Inr s \<Rightarrow>
               (case int_add s (VInt (- 1)) of
                  Inl e \<Rightarrow> Inl e
                | Inr hi \<Rightarrow>
               (case series_between ids off hi of
                  Inl e \<Rightarrow> Inl e
                | Inr m \<Rightarrow> Inr (getitem_mask df m)))))))"

text \<open>
  Modelled from the spec: \<^verbatim>\<open>add_globally_consecutive_column\<close> is defined in
  \<^verbatim>\<open>ibis/backends/dask/helpers.py\<close>.  As the row-identity service of the spec it adds
  one integer column, named \<open>col_name\<close>, to every partition and changes nothing else.  The
  identifier that row \<open>i\<close> of partition \<open>j\<close> receives is the parameter \<open>rowid j i\<close>, so
  nothing is assumed about the identifiers themselves.
\<close>

definition add_globally_consecutive_column :: "(nat \<Rightarrow> nat \<Rightarrow> int) \<Rightarrow> ddf \<Rightarrow> string \<Rightarrow> ddf" where
  "add_globally_consecutive_column rowid d col_name =
     \<lparr>dcolumns = dcolumns d @ [col_name],
      partitions = map (\<lambda>j. map (\<lambda>i. partitions d ! j ! i @ [VInt (rowid j i)])
                                  [0..<length (partitions d ! j)])
                       [0..<length (partitions d)]\<rparr>"

text \<open>
  \<^verbatim>\<open>map_partitions\<close> applies the function to the batch of every partition; the result
  keeps the declared columns (\<^verbatim>\<open>meta=df._meta\<close>).  \<^verbatim>\<open>drop(columns=names)\<close> removes the
  labelled columns and raises \<^verbatim>\<open>KeyError\<close> for a label that is absent.
\<close>

definition map_partitions :: "(pdf \<Rightarrow> error + pdf) \<Rightarrow> ddf \<Rightarrow> error + ddf" where
  "map_partitions f d =
     (case map_err (\<lambda>p. f (batch (dcolumns d) p)) (partitions d) of
        Inl e \<Rightarrow> Inl e
      | Inr outs \<Rightarrow> Inr \<lparr>dcolumns = dcolumns d, partitions = map rows outs\<rparr>)"

definition drop_cells :: "string list \<Rightarrow> string list \<Rightarrow> val list \<Rightarrow> val list" where
  "drop_cells cs ns r = map snd (filter (\<lambda>(c, v). c \<notin> set ns) (zip cs r))"

definition drop_columns :: "ddf \<Rightarrow> string list \<Rightarrow> error + ddf" where
  "drop_columns d ns =
     (case filter (\<lambda>c. c \<notin> set (dcolumns d)) ns of
        [] \<Rightarrow> Inr \<lparr>dcolumns = filter (\<lambda>c. c \<notin> set ns) (dcolumns d),
                    partitions = map (map (drop_cells (dcolumns d) ns)) (partitions d)\<rparr>
      | c # _ \<Rightarrow> Inl (KeyError c))"

text \<open>The name produced by \<^verbatim>\<open>gen_name("limit")\<close> is the parameter \<open>nm\<close>.\<close>

definition visit_PandasLimit ::
  "(nat \<Rightarrow> nat \<Rightarrow> int) \<Rightarrow> string \<Rightarrow> ddf \<Rightarrow> limit_arg \<Rightarrow> limit_arg \<Rightarrow> error + ddf" where
  "visit_PandasLimit rowid nm parent n offset =
     (let df = add_globally_consecutive_column rowid parent nm in
      case map_partitions (\<lambda>p. limit_df p nm n offset) df of
        Inl e \<Rightarrow> Inl e
      | Inr out \<Rightarrow> drop_columns out [nm])"

text \<open>Every row of every partition has one cell per column.\<close>

definition wf_ddf :: "ddf \<Rightarrow> bool" where
  "wf_ddf d = list_all (list_all (\<lambda>r. length r = length (dcolumns d))) (partitions d)"

text \<open>The rows of a batch whose identifier satisfies \<open>P\<close>, in their order.\<close>

definition rows_with_id :: "(int \<Rightarrow> bool) \<Rightarrow> (nat \<Rightarrow> int) \<Rightarrow> 'a list \<Rightarrow> 'a list" where
  "rows_with_id P ident rs = map (\<lambda>i. rs ! i) (filter (\<lambda>i. P (ident i)) [0..<length rs])"

section \<open>Argmin and argmax\<close>

text \<open>
  \<^verbatim>\<open>Series.argmin\<close> and \<^verbatim>\<open>Series.argmax\<close> return the position of the first extremal
  entry, skipping nulls.  On an empty series they raise \<^verbatim>\<open>ValueError\<close>; on a series
  whose entries are all null they return \<open>-1\<close> (pandas before 3.0); a series that is
  neither numeric nor boolean has dtype object, for which pandas raises \<^verbatim>\<open>TypeError\<close>.
\<close>

datatype arg_method = ArgMin | ArgMax

fun first_index :: "'a \<Rightarrow> 'a list \<Rightarrow> nat" where
  "first_index x [] = 0"
| "first_index x (y # ys) = (if x = y then 0 else Suc (first_index x ys))"

fun numeric :: "val \<Rightarrow> bool" where
  "numeric VNull = True"
| "numeric (VInt _) = True"
| "numeric _ = False"

fun int_keys :: "val list \<Rightarrow> int list" where
  "int_keys [] = []"
| "int_keys (VInt i # vs) = i # int_keys vs"
| "int_keys (_ # vs) = int_keys vs"

fun bool_keys :: "val list \<Rightarrow> bool list option" where
  "bool_keys [] = Some []"
| "bool_keys (VBool b # vs) = (case bool_keys vs of None \<Rightarrow> None | Some bs \<Rightarrow> Some (b # bs))"
| "bool_keys (_ # vs) = None"

definition extremum :: "arg_method \<Rightarrow> int list \<Rightarrow> int" where
  "extremum m xs = (case m of ArgMax \<Rightarrow> Max (set xs) | ArgMin \<Rightarrow> Min (set xs))"

definition bool_extremum :: "arg_method \<Rightarrow> bool list \<Rightarrow> bool" where
  "bool_extremum m bs = (case m of ArgMax \<Rightarrow> list_ex id bs | ArgMin \<Rightarrow> list_all id bs)"

definition series_arg :: "arg_method \<Rightarrow> val list \<Rightarrow> error + int" where
  "series_arg m s =
     (if s = [] then
        Inl (ValueError (case m of ArgMax \<Rightarrow> ''attempt to get argmax of an empty sequence''
                                 | ArgMin \<Rightarrow> ''attempt to get argmin of an empty sequence''))
      else if list_all numeric s then
        (if int_keys s = [] then Inr (- 1)
         else Inr (int (first_index (VInt (extremum m (int_keys s))) s)))
      else (case bool_keys s of
              Some bs \<Rightarrow> Inr (int (first_index (VBool (bool_extremum m bs)) s))
            | None \<Rightarrow> Inl TypeError))"

text \<open>
  \<^verbatim>\<open>df[[a, b]]\<close> selects the columns carrying the labels, in the order of the labels;
  \<^verbatim>\<open>df.iloc[lo:hi]\<close> slices the rows as Python slices do; \<^verbatim>\<open>series.iloc[i]\<close> reads
  one entry, counting from the end for a negative position.
\<close>

definition select_columns :: "pdf \<Rightarrow> string list \<Rightarrow> error + pdf" where
  "select_columns df labels =
     (case filter (\<lambda>c. c \<notin> set (columns df)) labels of
        c # _ \<Rightarrow> Inl (KeyError c)
      | [] \<Rightarrow>
          (let ps = concat (map (col_positions (columns df)) labels)
           in Inr \<lparr>columns = map (\<lambda>i. columns df ! i) ps,
                   rows = map (\<lambda>r. map (\<lambda>i. r ! i) ps) (rows df)\<rparr>))"

definition slice_bound :: "nat \<Rightarrow> int \<Rightarrow> nat" where
  "slice_bound n i = (if i < 0 then nat (max 0 (int n + i)) else min n (nat i))"

definition iloc_slice :: "pdf \<Rightarrow> int \<Rightarrow> int \<Rightarrow> pdf" where
  "iloc_slice df lo hi =
     df\<lparr>rows := take (slice_bound (length (rows df)) hi - slice_bound (length (rows df)) lo)
                     (drop (slice_bound (length (rows df)) lo) (rows df))\<rparr>"

definition iloc_item :: "val list \<Rightarrow> int \<Rightarrow> error + val" where
  "iloc_item s i =
     (if 0 \<le> i \<and> i < int (length s) then Inr (s ! nat i)
      else if - int (length s) \<le> i \<and> i < 0 then Inr (s ! nat (int (length s) + i))
      else Inl IndexError)"

definition argminmax_chunk :: "pdf \<Rightarrow> string \<Rightarrow> string \<Rightarrow> arg_method \<Rightarrow> error + pdf" where
  "argminmax_chunk df keycol valcol m =
     (case getitem df keycol of
        Inl e \<Rightarrow> Inl e
      | Inr ks \<Rightarrow>
     (case series_arg m ks of
        Inl e \<Rightarrow> Inl e
      | Inr idx \<Rightarrow>
     (case select_columns df [keycol, valcol] of
        Inl e \<Rightarrow> Inl e
      | Inr sel \<Rightarrow> Inr (iloc_slice sel idx (idx + 1)))))"

definition argminmax_aggregate :: "pdf \<Rightarrow> string \<Rightarrow> string \<Rightarrow> arg_method \<Rightarrow> error + val" where
  "argminmax_aggregate df keycol valcol m =
     (case getitem df valcol of
        Inl e \<Rightarrow> Inl e
      | Inr vs \<Rightarrow>
     (case getitem df keycol of
        Inl e \<Rightarrow> Inl e
      | Inr ks \<Rightarrow>
     (case series_arg m ks of
        Inl e \<Rightarrow> Inl e
      | Inr idx \<Rightarrow> iloc_item vs idx)))"

text \<open>
  \<^verbatim>\<open>DataFrame.reduction\<close> of dask.  The chunk function runs on every partition.  While
  more than \<open>split_every\<close> partial results remain, they are grouped \<open>split_every\<close> at a
  time (\<^verbatim>\<open>toolz.partition_all\<close>), each group is concatenated and given to the combine
  function.  The concatenation of what remains is given to the aggregate function.  The
  executor does not pass \<^verbatim>\<open>split_every\<close>, so dask uses its default, 8; here it is a
  parameter.  The frames concatenated all have the same columns.
\<close>

definition pd_concat :: "pdf list \<Rightarrow> error + pdf" where
  "pd_concat dfs =
     (case dfs of
        [] \<Rightarrow> Inl (ValueError ''No objects to concatenate'')
      | d # ds \<Rightarrow> Inr \<lparr>columns = columns d, rows = concat (map rows dfs)\<rparr>)"

fun partition_all :: "nat \<Rightarrow> 'a list \<Rightarrow> 'a list list" where
  "partition_all n xs =
     (if n = 0 \<or> xs = [] then [] else take n xs # partition_all n (drop n xs))"

declare partition_all.simps [simp del]

lemma map_err_length: "map_err f xs = Inr ys \<Longrightarrow> length ys = length xs"
  by (induction xs arbitrary: ys) (auto split: sum.splits)

lemma length_partition_all_le: "length (partition_all n xs) \<le> length xs"
proof (induction n xs rule: partition_all.induct)
  case (1 n xs)
  show ?case
  proof (cases "n = 0 \<or> xs = []")
    case True
    then show ?thesis by (simp add: partition_all.simps)
  next
    case False
    then have "length (partition_all n (drop n xs)) \<le> length xs - n"
      using 1 by simp
    moreover have "1 \<le> length xs" "0 < n" using False by (cases xs; simp)+
    moreover have "length (partition_all n xs) = Suc (length (partition_all n (drop n xs)))"
      using False by (subst partition_all.simps) auto
    ultimately show ?thesis by arith
  qed
qed

lemma length_partition_all_less:
  assumes "2 \<le> n" "n < length xs"
  shows "length (partition_all n xs) < length xs"
proof -
  have "partition_all n xs = take n xs # partition_all n (drop n xs)"
    using assms by (subst partition_all.simps) auto
  moreover have "length (partition_all n (drop n xs)) \<le> length xs - n"
    using length_partition_all_le [of n "drop n xs"] by simp
  ultimately show ?thesis using assms by simp
qed

function tree_combine :: "nat \<Rightarrow> (pdf \<Rightarrow> error + pdf) \<Rightarrow> pdf list \<Rightarrow> error + pdf list" where
  "tree_combine split_every combine parts =
     (if split_every < 2 \<or> length parts \<le> split_every then Inr parts
      else (case map_err (\<lambda>g. case pd_concat g of Inl e \<Rightarrow> Inl e | Inr c \<Rightarrow> combine c)
                         (partition_all split_every parts) of
              Inl e \<Rightarrow> Inl e
            | Inr parts' \<Rightarrow> tree_combine split_every combine parts'))"
  by pat_completeness auto
termination
proof (relation "measure (\<lambda>(se, c, parts). length parts)")
  show "wf (measure (\<lambda>(se, c, parts). length parts))" by simp
next
  fix split_every :: nat and combine :: "pdf \<Rightarrow> error + pdf" and parts parts' :: "pdf list"
  assume a: "\<not> (split_every < 2 \<or> length parts \<le> split_every)"
    and b: "map_err (\<lambda>g. case pd_concat g of Inl e \<Rightarrow> Inl e | Inr c \<Rightarrow> combine c)
              (partition_all split_every parts) = Inr parts'"
  have "length parts' = length (partition_all split_every parts)"
    using b by (rule map_err_length)
  then show "((split_every, combine, parts'), (split_every, combine, parts))
          \<in> measure (\<lambda>(se, c, parts). length parts)"
    using a length_partition_all_less [of split_every parts] by simp
qed

declare tree_combine.simps [simp del]

definition reduction ::
  "nat \<Rightarrow> (pdf \<Rightarrow> error + pdf) \<Rightarrow> (pdf \<Rightarrow> error + pdf) \<Rightarrow> (pdf \<Rightarrow> error + 'r) \<Rightarrow> ddf \<Rightarrow> error + 'r" where
  "reduction split_every chunk combine aggregate d =
     (if split_every < 2 then Inl (ValueError ''split_every must be an integer >= 2'')
      else
     (case map_err (\<lambda>p. chunk (batch (dcolumns d) p)) (partitions d) of
        Inl e \<Rightarrow> Inl e
      | Inr parts \<Rightarrow>
     (case tree_combine split_every combine parts of
        Inl e \<Rightarrow> Inl e
      | Inr parts' \<Rightarrow>
     (case pd_concat parts' of
        Inl e \<Rightarrow> Inl e
      | Inr c \<Rightarrow> aggregate c))))"

text \<open>
  The closure \<^verbatim>\<open>agg\<close> returned by the rule for \<^verbatim>\<open>ArgMin\<close> and \<^verbatim>\<open>ArgMax\<close>.  Its
  argument is a dask frame or a pandas frame; \<open>w\<close> is the name of the optional
  \<^verbatim>\<open>where\<close> column.
\<close>

datatype frame = Pandas pdf | Dask ddf

definition dd_where :: "ddf \<Rightarrow> string option \<Rightarrow> error + ddf" where
  "dd_where d w =
     (case map_err (\<lambda>p. df_where (batch (dcolumns d) p) w) (partitions d) of
        Inl e \<Rightarrow> Inl e
      | Inr outs \<Rightarrow> Inr \<lparr>dcolumns = dcolumns d, partitions = map rows outs\<rparr>)"

definition argminmax_agg ::
  "nat \<Rightarrow> arg_method \<Rightarrow> string \<Rightarrow> string \<Rightarrow> string option \<Rightarrow> frame \<Rightarrow> error + val" where
  "argminmax_agg split_every m arg_name key_name w df =
     (case df of
        Dask d \<Rightarrow>
          (case dd_where d w of
             Inl e \<Rightarrow> Inl e
           | Inr d' \<Rightarrow>
               reduction split_every
                 (\<lambda>p. argminmax_chunk p key_name arg_name m)
                 (\<lambda>p. argminmax_chunk p key_name arg_name m)
                 (\<lambda>p. argminmax_aggregate p key_name arg_name m) d')
      | Pandas p \<Rightarrow>
          (case df_where p w of
             Inl e \<Rightarrow> Inl e
           | Inr p' \<Rightarrow> argminmax_aggregate p' key_name arg_name m))"

definition visit_ArgMinMax ::
  "nat \<Rightarrow> bool \<Rightarrow> string \<Rightarrow> string \<Rightarrow> string option \<Rightarrow> frame \<Rightarrow> error + val" where
  "visit_ArgMinMax split_every is_argmin arg_name key_name w =
     (let m = (if is_argmin then ArgMin else ArgMax)
      in argminmax_agg split_every m arg_name key_name w)"

text \<open>A batch has a usable key when its key column holds integers or nulls, with at least
  one integer.\<close>

definition usable_key :: "string list \<Rightarrow> string \<Rightarrow> val list list \<Rightarrow> bool" where
  "usable_key cs k rs =
     (case getitem (batch cs rs) k of
        Inr ks \<Rightarrow> list_all numeric ks \<and> int_keys ks \<noteq> []
      | Inl _ \<Rightarrow> False)"

section \<open>Sort\<close>

text \<open>
  Every key of the \<^verbatim>\<open>Sort\<close> node carries the flags \<^verbatim>\<open>ascending\<close> and
  \<^verbatim>\<open>nulls_first\<close>; \<^verbatim>\<open>na_position\<close> is the one null placement that
  \<^verbatim>\<open>sort_values\<close> accepts.
\<close>

record sort_key =
  ascending :: bool
  nulls_first :: bool

datatype na_position = NaFirst | NaLast

text \<open>
  The order of \<^verbatim>\<open>sort_values\<close> on the cells of one key column: strings by code point,
  numbers and booleans by value, in the direction of \<^verbatim>\<open>ascending\<close>; nulls first or last
  as \<^verbatim>\<open>na_position\<close> says, whatever the direction.  Rows are compared key by key.
\<close>

fun str_le :: "string \<Rightarrow> string \<Rightarrow> bool" where
  "str_le [] ys = True"
| "str_le (x # xs) [] = False"
| "str_le (x # xs) (y # ys) =
     ((of_char x :: nat) < of_char y \<or> (x = y \<and> str_le xs ys))"

fun num_of :: "val \<Rightarrow> int" where
  "num_of (VInt i) = i"
| "num_of (VBool b) = of_bool b"
| "num_of _ = 0"

fun str_of :: "val \<Rightarrow> string" where
  "str_of (VStr s) = s"
| "str_of _ = []"

fun is_str :: "val \<Rightarrow> bool" where
  "is_str (VStr _) = True"
| "is_str _ = False"

definition val_le :: "val \<Rightarrow> val \<Rightarrow> bool" where
  "val_le a b =
     (if is_str a then is_str b \<and> str_le (str_of a) (str_of b)
      else is_str b \<or> num_of a \<le> num_of b)"

definition cell_le :: "bool \<Rightarrow> na_position \<Rightarrow> val \<Rightarrow> val \<Rightarrow> bool" where
  "cell_le asc na a b =
     (if a = VNull then (b = VNull \<or> na = NaFirst)
      else if b = VNull then na = NaLast
      else if asc then val_le a b else val_le b a)"

fun keys_le :: "bool list \<Rightarrow> na_position \<Rightarrow> val list \<Rightarrow> val list \<Rightarrow> bool" where
  "keys_le (asc # ascs) na (a # ka) (b # kb) =
     (if cell_le asc na a b \<and> cell_le asc na b a then keys_le ascs na ka kb
      else cell_le asc na a b)"
| "keys_le ascs na ka kb = True"

text \<open>
  \<^verbatim>\<open>sort_values(by, ascending, na_position)\<close>: a missing label raises \<^verbatim>\<open>KeyError\<close>,
  a list of directions of another length than \<^verbatim>\<open>by\<close> raises \<^verbatim>\<open>ValueError\<close>, a
  key column mixing strings with numbers raises \<^verbatim>\<open>TypeError\<close>.  How dask distributes
  the sorted rows over partitions is not modelled: the result holds them in one partition.
\<close>

fun insort_by :: "('a \<Rightarrow> 'a \<Rightarrow> bool) \<Rightarrow> 'a \<Rightarrow> 'a list \<Rightarrow> 'a list" where
  "insort_by le x [] = [x]"
| "insort_by le x (y # ys) = (if le x y then x # y # ys else y # insort_by le x ys)"

definition sort_by :: "('a \<Rightarrow> 'a \<Rightarrow> bool) \<Rightarrow> 'a list \<Rightarrow> 'a list" where
  "sort_by le xs = foldr (insort_by le) xs []"

definition comparable :: "val list \<Rightarrow> bool" where
  "comparable col = (list_all (\<lambda>v. \<not> is_str v) col \<or> list_all (\<lambda>v. v = VNull \<or> is_str v) col)"

definition sort_values :: "ddf \<Rightarrow> string list \<Rightarrow> bool list \<Rightarrow> na_position \<Rightarrow> error + ddf" where
  "sort_values d by_cols ascs na =
     (case filter (\<lambda>c. c \<notin> set (dcolumns d)) by_cols of
        c # _ \<Rightarrow> Inl (KeyError c)
      | [] \<Rightarrow>
          if length ascs \<noteq> length by_cols
          then Inl (ValueError ''Length of ascending != length of by'')
          else
            (let ps = concat (map (col_positions (dcolumns d)) by_cols);
                 rs = concat (partitions d)
             in if list_all (\<lambda>i. comparable (map (\<lambda>r. r ! i) rs)) ps
                then Inr \<lparr>dcolumns = dcolumns d,
                         partitions =
                           [sort_by (\<lambda>r s. keys_le ascs na (map (\<lambda>i. r ! i) ps) (map (\<lambda>i. s ! i) ps)) rs]\<rparr>
                else Inl TypeError))"

text \<open>
  \<^verbatim>\<open>assign(**newcols)\<close> adds the columns in their order; a label that exists already has
  its column replaced.  The series of a new column is partitioned as the frame is.
\<close>

definition assign_col :: "ddf \<Rightarrow> string \<times> val list list \<Rightarrow> ddf" where
  "assign_col d nc =
     (case nc of
        (nm, ser) \<Rightarrow>
          (case col_positions (dcolumns d) nm of
             [] \<Rightarrow> \<lparr>dcolumns = dcolumns d @ [nm],
                     partitions = map2 (map2 (\<lambda>r c. r @ [c])) (partitions d) ser\<rparr>
           | ps \<Rightarrow> \<lparr>dcolumns = dcolumns d,
                     partitions = map2 (map2 (\<lambda>r c. fold (\<lambda>i r'. r'[i := c]) ps r))
                                       (partitions d) ser\<rparr>))"

definition dd_assign :: "ddf \<Rightarrow> (string \<times> val list list) list \<Rightarrow> ddf" where
  "dd_assign d newcols = foldl assign_col d newcols"

text \<open>The names produced by \<^verbatim>\<open>gen_name("sort_key")\<close>, one per key, are the parameter
  \<open>names\<close>; \<open>op_keys\<close> are the keys of the node and \<open>keys\<close> their compiled columns.\<close>

definition visit_Sort ::
  "string list \<Rightarrow> sort_key list \<Rightarrow> ddf \<Rightarrow> val list list list \<Rightarrow> error + ddf" where
  "visit_Sort names op_keys parent keys =
     (let ascs = map ascending op_keys;
          nf = map nulls_first op_keys
      in case (if list_all id nf then Inr NaFirst
               else if \<not> list_ex id nf then Inr NaLast
               else Inl (ValueError
                 ''dask does not support specifying null ordering for individual columns'')) of
           Inl e \<Rightarrow> Inl e
         | Inr na \<Rightarrow>
             (let newcols = zip names keys;
                  df = dd_assign parent newcols
              in case sort_values df names ascs na of
                   Inl e \<Rightarrow> Inl e
                 | Inr sorted_df \<Rightarrow> drop_columns sorted_df names))"

text \<open>The key cells of every row, partition by partition: row \<open>t\<close> of partition \<open>j\<close>
  gets the list of the entries at \<open>(j, t)\<close> of the key series.\<close>

fun key_cells :: "'a list list \<Rightarrow> val list list list \<Rightarrow> val list list list" where
  "key_cells parts [] = map (map (\<lambda>_. [])) parts"
| "key_cells parts (k # ks) = map2 (map2 (#)) k (key_cells parts ks)"

declare key_cells.simps [simp del]

section \<open>Grouped aggregation\<close>

text \<open>
  The result of a grouped aggregation is typed: a pandas series has a name, a dtype, an
  index with named levels and one entry per index key; a frame has typed columns.  The
  declared type of a metric is an ibis type, converted by \<^verbatim>\<open>PandasType.from_ibis\<close>,
  which is the parameter \<open>from_ibis\<close>.
\<close>

datatype pd_dtype = Int64 | Float64 | Boolean | Object | Datetime

record series =
  sname :: string
  sdtype :: pd_dtype
  index_names :: "string list"
  index_dtypes :: "pd_dtype list"
  entries :: "(val list \<times> val) list"

record indexed =
  xnames :: "string list"
  xdtypes :: "pd_dtype list"
  xcolumns :: "(string \<times> pd_dtype) list"
  xentries :: "(val list \<times> val list) list"

record tdf =
  tcolumns :: "(string \<times> pd_dtype) list"
  trows :: "val list list"

text \<open>
  The template \<^verbatim>\<open>meta\<close>: an empty series with the metric's name and dtype, indexed by an
  empty \<^verbatim>\<open>MultiIndex\<close> whose levels are named after the groups (empty levels have dtype
  object).
\<close>

definition empty_series :: "string \<Rightarrow> pd_dtype \<Rightarrow> string list \<Rightarrow> series" where
  "empty_series nm dt names =
     \<lparr>sname = nm, sdtype = dt, index_names = names,
      index_dtypes = map (\<lambda>_. Object) names, entries = []\<rparr>"

text \<open>
  \<^verbatim>\<open>parent.groupby(names)\<close> raises \<^verbatim>\<open>KeyError\<close> for a missing column.  The groups are
  the distinct key tuples without nulls (pandas sorts them; their order plays no role
  here), and \<^verbatim>\<open>apply(metric, meta=meta)\<close> calls the metric on the batch of every group.
  When there is no group, pandas (from 2.0) does not call the function, and dask returns
  the template for an empty result.  Otherwise the result is indexed by the grouping
  columns under their own names, and its dtypes are those pandas infers from the values:
  the parameter \<open>infer\<close>.
\<close>

definition groupby :: "pdf \<Rightarrow> string list \<Rightarrow> error + pdf \<times> nat list" where
  "groupby df by_cols =
     (case map_err (\<lambda>c. case col_positions (columns df) c of
                            [] \<Rightarrow> Inl (KeyError c)
                          | [i] \<Rightarrow> Inr i
                          | _ \<Rightarrow> Inl (ValueError ''Grouper is not 1-dimensional'')) by_cols of
        Inl e \<Rightarrow> Inl e
      | Inr ps \<Rightarrow> Inr (df, ps))"

definition group_keys :: "pdf \<times> nat list \<Rightarrow> val list list" where
  "group_keys g =
     (case g of (df, ps) \<Rightarrow>
        remdups (filter (\<lambda>k. VNull \<notin> set k) (map (\<lambda>r. map (\<lambda>i. r ! i) ps) (rows df))))"

definition group_frame :: "pdf \<times> nat list \<Rightarrow> val list \<Rightarrow> pdf" where
  "group_frame g k =
     (case g of (df, ps) \<Rightarrow> df\<lparr>rows := filter (\<lambda>r. map (\<lambda>i. r ! i) ps = k) (rows df)\<rparr>)"

definition groupby_apply ::
  "(pd_dtype \<Rightarrow> val list \<Rightarrow> pd_dtype) \<Rightarrow> pdf \<times> nat list \<Rightarrow> string list
    \<Rightarrow> (frame \<Rightarrow> error + val) \<Rightarrow> series \<Rightarrow> error + series" where
  "groupby_apply infer g by_cols metric meta =
     (case map_err (\<lambda>k. metric (Pandas (group_frame g k))) (group_keys g) of
        Inl e \<Rightarrow> Inl e
      | Inr vals \<Rightarrow>
          if vals = [] then Inr meta
          else Inr \<lparr>sname = sname meta,
                    sdtype = infer (sdtype meta) vals,
                    index_names = by_cols,
                    index_dtypes = map (\<lambda>t. infer Object (map (\<lambda>k. k ! t) (group_keys g)))
                                       [0..<length by_cols],
                    entries = zip (group_keys g) vals\<rparr>)"

text \<open>
  Modelled from the spec: \<^verbatim>\<open>cls.concat(measures, axis=1)\<close> is defined in
  \<^verbatim>\<open>ibis/backends/dask/helpers.py\<close>.  It produces one row per distinct group-key
  combination with one column per metric: every series becomes the column named by its key
  in \<^verbatim>\<open>measures\<close>, the rows are aligned on the index, and a missing entry is null.  As
  \<^verbatim>\<open>dd.concat\<close> it raises \<^verbatim>\<open>ValueError\<close> when there is nothing to concatenate.
\<close>

definition concat_columns :: "(string \<times> series) list \<Rightarrow> error + indexed" where
  "concat_columns named_series =
     (case named_series of
        [] \<Rightarrow> Inl (ValueError ''No objects to concatenate'')
      | (n0, s0) # _ \<Rightarrow>
          Inr \<lparr>xnames = index_names s0,
               xdtypes = index_dtypes s0,
               xcolumns = map (\<lambda>(n, s). (n, sdtype s)) named_series,
               xentries =
                 map (\<lambda>k. (k, map (\<lambda>(n, s). case map_of (entries s) k of
                                                 Some v \<Rightarrow> v | None \<Rightarrow> VNull) named_series))
                     (remdups (concat (map (\<lambda>(n, s). map fst (entries s)) named_series)))\<rparr>)"

text \<open>
  \<^verbatim>\<open>reset_index()\<close> turns the index levels into leading columns and raises
  \<^verbatim>\<open>ValueError\<close> when a level name is a column already; \<^verbatim>\<open>rename(columns=renames)\<close>
  relabels the columns found in the dictionary, whose later entries win.
\<close>

definition reset_index_columns :: "indexed \<Rightarrow> error + tdf" where
  "reset_index_columns x =
     (case filter (\<lambda>n. n \<in> set (map fst (xcolumns x))) (xnames x) of
        n # _ \<Rightarrow> Inl (ValueError (''cannot insert '' @ n @ '', already exists''))
      | [] \<Rightarrow> Inr \<lparr>tcolumns = zip (xnames x) (xdtypes x) @ xcolumns x,
                    trows = map (\<lambda>(k, vs). k @ vs) (xentries x)\<rparr>)"

definition rename_columns :: "tdf \<Rightarrow> (string \<times> string) list \<Rightarrow> tdf" where
  "rename_columns t renames =
     t\<lparr>tcolumns := map (\<lambda>(c, dt). (case map_of (rev renames) c of Some k \<Rightarrow> k | None \<Rightarrow> c, dt))
                        (tcolumns t)\<rparr>"

text \<open>
  The rule.  \<open>groups\<close> pairs the output name of every group with the name of its column in
  the parent; \<open>metrics\<close> lists every metric with its name, its declared type and its
  function.  Without groups every metric is applied to the whole table and
  \<^verbatim>\<open>cls.asframe\<close>, the parameter \<open>asframe\<close>, assembles the one-row result.
\<close>

definition visit_PandasAggregate ::
  "('ty \<Rightarrow> pd_dtype) \<Rightarrow> (pd_dtype \<Rightarrow> val list \<Rightarrow> pd_dtype) \<Rightarrow> ((string \<times> val) list \<Rightarrow> tdf \<times> bool)
    \<Rightarrow> ddf \<Rightarrow> (string \<times> string) list \<Rightarrow> (string \<times> 'ty \<times> (frame \<Rightarrow> error + val)) list
    \<Rightarrow> error + tdf" where
  "visit_PandasAggregate from_ibis infer asframe parent groups metrics =
     (if groups = [] then
        (case map_err (\<lambda>(k, ty, v). case v (Dask parent) of
                                       Inl e \<Rightarrow> Inl e
                                     | Inr x \<Rightarrow> Inr (k, x)) metrics of
           Inl e \<Rightarrow> Inl e
         | Inr results \<Rightarrow> Inr (fst (asframe results)))
      else
        (case groupby (compute parent) (map snd groups) of
           Inl e \<Rightarrow> Inl e
         | Inr grouped \<Rightarrow>
        (case map_err (\<lambda>(nm, ty, metric).
                  case groupby_apply infer grouped (map snd groups) metric
                         (empty_series nm (from_ibis ty) (map fst groups)) of
                    Inl e \<Rightarrow> Inl e
                  | Inr s \<Rightarrow> Inr (nm, s)) metrics of
           Inl e \<Rightarrow> Inl e
         | Inr named_series \<Rightarrow>
        (case concat_columns named_series of
           Inl e \<Rightarrow> Inl e
         | Inr x \<Rightarrow>
        (case reset_index_columns x of
           Inl e \<Rightarrow> Inl e
         | Inr result \<Rightarrow> Inr (rename_columns result (map (\<lambda>(k, v). (v, k)) groups)))))))"

section \<open>Results\<close>

text \<open>C5: correlation and covariance with the population convention raise
  \<^verbatim>\<open>UnsupportedOperationError\<close> when the node is translated, for every kernel, column and
  filter, so no aggregation closure and no number is ever produced; with the sample
  convention the rule returns the aggregation closure.\<close>

theorem pop_convention_unsupported:
  "(\<exists>msg. visit_Correlation corr l r w ''pop'' = Inl (UnsupportedOperationError msg))
   \<and> (\<exists>msg. visit_Covariance cov l r w ''pop'' = Inl (UnsupportedOperationError msg))
   \<and> visit_Correlation corr l r w ''sample'' = Inr (stat_agg corr l r w)
   \<and> visit_Covariance cov l r w ''sample'' = Inr (stat_agg cov l r w)"
  by (simp add: visit_Correlation_def visit_Covariance_def)

text \<open>C8: a table scan whose name is not registered in the catalog fails with
  \<^verbatim>\<open>UnboundExpressionError\<close> when the node is translated (the \<^verbatim>\<open>KeyError\<close> of the
  lookup is not what surfaces); a registered name yields the registered dask frame.\<close>

theorem table_scan_lookup:
  "(dictionary src nm = None \<longrightarrow>
      visit_DatabaseTable nm src = Inl (UnboundExpressionError nm (name src))
      \<and> visit_DatabaseTable nm src \<noteq> Inl (KeyError nm))
   \<and> (dictionary src nm = Some t \<longrightarrow> visit_DatabaseTable nm src = Inr t)"
  by (simp add: visit_DatabaseTable_def)

theorem table_scan_lookup_witness:
  "visit_DatabaseTable ''u''
      \<lparr>name = ''dask'', dictionary = [''t'' \<mapsto> \<lparr>dcolumns = [''a''], partitions = [[[VInt 1]]]\<rparr>]\<rparr>
     = Inl (UnboundExpressionError ''u'' ''dask'')
   \<and> visit_DatabaseTable ''t''
      \<lparr>name = ''dask'', dictionary = [''t'' \<mapsto> \<lparr>dcolumns = [''a''], partitions = [[[VInt 1]]]\<rparr>]\<rparr>
     = Inr \<lparr>dcolumns = [''a''], partitions = [[[VInt 1]]]\<rparr>"
  using table_scan_lookup [of "\<lparr>name = ''dask'', dictionary = [''t'' \<mapsto> \<lparr>dcolumns = [''a''], partitions = [[[VInt 1]]]\<rparr>]\<rparr>" "''u''"]
        table_scan_lookup [of "\<lparr>name = ''dask'', dictionary = [''t'' \<mapsto> \<lparr>dcolumns = [''a''], partitions = [[[VInt 1]]]\<rparr>]\<rparr>" "''t''" "\<lparr>dcolumns = [''a''], partitions = [[[VInt 1]]]\<rparr>"]
  by simp

subsection \<open>Filter\<close>

lemma mask_rows_index:
  assumes "length ms = length rs"
  shows "mask_rows rs ms = map (\<lambda>i. rs ! i) (filter (\<lambda>i. ms ! i) [0..<length rs])"
proof -
  have "zip rs ms = map (\<lambda>i. (rs ! i, ms ! i)) [0..<length rs]"
    using assms by (intro nth_equalityI) auto
  then show ?thesis
    by (simp add: mask_rows_def filter_map comp_def)
qed

lemma and_series_aligned:
  assumes "map length p = ls" "map length q = ls"
  shows "map length (and_series p q) = ls"
  using assms
  by (auto simp: and_series_def list_eq_iff_nth_eq dest: arg_cong [where f = length])

lemma and_series_nth:
  assumes "map length p = ls" "map length q = ls" "j < length ls" "i < ls ! j"
  shows "and_series p q ! j ! i = (p ! j ! i \<and> q ! j ! i)"
proof -
  have l: "length p = length ls" "length q = length ls"
    using assms(1,2) by (auto dest: arg_cong [where f = length])
  have "length (p ! j) = ls ! j" "length (q ! j) = ls ! j"
    using assms l by (auto simp: list_eq_iff_nth_eq)
  then show ?thesis using assms l by (simp add: and_series_def)
qed

lemma foldl_and_series:
  assumes "map length acc = ls" "list_all (\<lambda>p. map length p = ls) ps"
  shows "map length (foldl and_series acc ps) = ls
    \<and> (\<forall>j i. j < length ls \<longrightarrow> i < ls ! j \<longrightarrow>
          foldl and_series acc ps ! j ! i = (acc ! j ! i \<and> list_all (\<lambda>p. p ! j ! i) ps))"
  using assms
proof (induction ps arbitrary: acc)
  case Nil
  then show ?case by simp
next
  case (Cons p ps)
  have a: "map length (and_series acc p) = ls"
    using Cons.prems by (simp add: and_series_aligned)
  have "list_all (\<lambda>p. map length p = ls) ps" using Cons.prems by simp
  from Cons.IH [OF a this] show ?case
    using Cons.prems by (auto simp: and_series_nth)
qed

lemma reduce_and_all:
  assumes "predicates \<noteq> []" "list_all (\<lambda>p. map length p = ls) predicates"
  shows "map length (reduce_and predicates) = ls
    \<and> (\<forall>j i. j < length ls \<longrightarrow> i < ls ! j \<longrightarrow>
          reduce_and predicates ! j ! i = list_all (\<lambda>p. p ! j ! i) predicates)"
proof -
  obtain p ps where ps: "predicates = p # ps" using assms(1) by (cases predicates) auto
  show ?thesis
    using foldl_and_series [of p ls ps] assms(2) by (simp add: ps reduce_and_def)
qed

text \<open>C7: the filter rule with an empty predicate list returns the parent unchanged; with
  predicates aligned with the parent it keeps the columns and, in every partition, exactly
  the rows at the positions where all predicates are true (their logical AND used as a
  boolean mask).\<close>

theorem filter_conjunction:
  "visit_Filter parent [] = parent
   \<and> (predicates \<noteq> [] \<longrightarrow> list_all (aligned parent) predicates \<longrightarrow>
        dcolumns (visit_Filter parent predicates) = dcolumns parent
        \<and> partitions (visit_Filter parent predicates) =
            map (\<lambda>j. rows_where_all (partitions parent ! j) (map (\<lambda>p. p ! j) predicates))
                [0..<length (partitions parent)])"
proof (intro conjI impI)
  show "visit_Filter parent [] = parent" by (simp add: visit_Filter_def)
next
  assume ne: "predicates \<noteq> []" and al: "list_all (aligned parent) predicates"
  show "dcolumns (visit_Filter parent predicates) = dcolumns parent"
    using ne by (simp add: visit_Filter_def reset_index_def loc_mask_def)
next
  assume ne: "predicates \<noteq> []" and al: "list_all (aligned parent) predicates"
  define ls where "ls = map length (partitions parent)"
  define m where "m = reduce_and predicates"
  have al': "list_all (\<lambda>p. map length p = ls) predicates"
    using al by (simp add: list_all_iff aligned_def ls_def)
  have m: "map length m = ls"
    and mn: "\<And>j i. j < length ls \<Longrightarrow> i < ls ! j \<Longrightarrow>
               m ! j ! i = list_all (\<lambda>p. p ! j ! i) predicates"
    using reduce_and_all [OF ne al'] by (simp_all add: m_def)
  have lm: "length m = length (partitions parent)"
    using m by (auto simp: ls_def dest: arg_cong [where f = length])
  have "map2 mask_rows (partitions parent) m =
        map (\<lambda>j. rows_where_all (partitions parent ! j) (map (\<lambda>p. p ! j) predicates))
            [0..<length (partitions parent)]"
  proof (rule nth_equalityI)
    show "length (map2 mask_rows (partitions parent) m) =
          length (map (\<lambda>j. rows_where_all (partitions parent ! j) (map (\<lambda>p. p ! j) predicates))
            [0..<length (partitions parent)])"
      using lm by simp
  next
    fix j assume "j < length (map2 mask_rows (partitions parent) m)"
    then have j: "j < length (partitions parent)" using lm by simp
    have len: "length (m ! j) = length (partitions parent ! j)"
      using m j lm by (auto simp: ls_def list_eq_iff_nth_eq)
    have "mask_rows (partitions parent ! j) (m ! j) =
          rows_where_all (partitions parent ! j) (map (\<lambda>p. p ! j) predicates)"
      unfolding mask_rows_index [OF len] rows_where_all_def
      using mn [of j] j
      by (intro arg_cong [where f = "map _"] filter_cong)
         (auto simp: ls_def list_all_iff)
    then show "map2 mask_rows (partitions parent) m ! j =
          map (\<lambda>j. rows_where_all (partitions parent ! j) (map (\<lambda>p. p ! j) predicates))
            [0..<length (partitions parent)] ! j"
      using j lm by simp
  qed
  then show "partitions (visit_Filter parent predicates) =
            map (\<lambda>j. rows_where_all (partitions parent ! j) (map (\<lambda>p. p ! j) predicates))
                [0..<length (partitions parent)]"
    using ne by (simp add: visit_Filter_def reset_index_def loc_mask_def m_def)
qed

theorem filter_conjunction_witness:
  "visit_Filter \<lparr>dcolumns = [''a''], partitions = [[[VInt 1], [VInt 2]], [[VInt 3]]]\<rparr> []
     = \<lparr>dcolumns = [''a''], partitions = [[[VInt 1], [VInt 2]], [[VInt 3]]]\<rparr>
   \<and> partitions (visit_Filter \<lparr>dcolumns = [''a''], partitions = [[[VInt 1], [VInt 2]], [[VInt 3]]]\<rparr>
        [[[True, True], [True]], [[False, True], [True]]]) = [[[VInt 2]], [[VInt 3]]]"
  using filter_conjunction [of "\<lparr>dcolumns = [''a''], partitions = [[[VInt 1], [VInt 2]], [[VInt 3]]]\<rparr>"
          "[[[True, True], [True]], [[False, True], [True]]]"]
  by (simp add: aligned_def rows_where_all_def upt_rec [of 0] upt_rec [of 1] upt_rec [of 2])

subsection \<open>Materialisation\<close>

text \<open>C6, as stated, fails: a scalar-shaped expression whose materialised result has two
  rows and one column does not fail; \<^verbatim>\<open>execute\<close> returns the cell at row 0, column 0.\<close>

theorem scalar_cell_counterexample:
  "execute Inr (Value Scalar) (DaskFrame \<lparr>dcolumns = [''x''], partitions = [[[VInt 1], [VInt 2]]]\<rparr>)
     = Inr (Cell (VInt 1))
   \<and> length (rows (compute \<lparr>dcolumns = [''x''], partitions = [[[VInt 1], [VInt 2]]]\<rparr>)) = 2
   \<and> length (columns (compute \<lparr>dcolumns = [''x''], partitions = [[[VInt 1], [VInt 2]]]\<rparr>)) = 1"
  by (simp add: execute_def materialize_def compute_def coerce_def iloc_cell_def)

text \<open>C6, amended: for a scalar-shaped expression \<^verbatim>\<open>execute\<close> returns the cell at row
  0, column 0 of the converted materialised result whenever that result has at least one row
  and one column, and raises \<^verbatim>\<open>IndexError\<close> exactly when it has no row or no column; a
  result with more rows or columns is not rejected.\<close>

theorem scalar_cell:
  assumes "materialize res = Inr r" and "convert_table r = Inr t"
  shows "execute convert_table (Value Scalar) res =
           (if rows t \<noteq> [] \<and> columns t \<noteq> [] then Inr (Cell (rows t ! 0 ! 0)) else Inl IndexError)"
  using assms by (simp add: execute_def coerce_def iloc_cell_def)

theorem scalar_cell_witness:
  "execute Inr (Value Scalar) (DaskFrame \<lparr>dcolumns = [''x''], partitions = [[], [[VInt 7]]]\<rparr>)
     = Inr (Cell (VInt 7))
   \<and> execute Inr (Value Scalar) (PandasFrame \<lparr>columns = [''x''], rows = []\<rparr>) = Inl IndexError"
  using scalar_cell [of "DaskFrame \<lparr>dcolumns = [''x''], partitions = [[], [[VInt 7]]]\<rparr>"
                        "\<lparr>columns = [''x''], rows = [[VInt 7]]\<rparr>" Inr
                        "\<lparr>columns = [''x''], rows = [[VInt 7]]\<rparr>"]
        scalar_cell [of "PandasFrame \<lparr>columns = [''x''], rows = []\<rparr>"
                        "\<lparr>columns = [''x''], rows = []\<rparr>" Inr
                        "\<lparr>columns = [''x''], rows = []\<rparr>"]
  by (simp add: materialize_def compute_def empty_pdf_def)

text \<open>C9: for a columnar-shaped expression \<^verbatim>\<open>execute\<close> returns column 0 of the
  converted materialised result, however many columns it has (no check for exactly one
  column), and a result with no rows yields the empty column.\<close>

theorem columnar_first_column:
  assumes "materialize res = Inr r" and "convert_table r = Inr t" and "columns t \<noteq> []"
  shows "execute convert_table (Value Columnar) res = Inr (Column (map (\<lambda>row. row ! 0) (rows t)))
         \<and> (rows t = [] \<longrightarrow> execute convert_table (Value Columnar) res = Inr (Column []))"
  using assms by (simp add: execute_def coerce_def iloc_column_def)

theorem columnar_first_column_witness:
  "execute Inr (Value Columnar)
      (DaskFrame \<lparr>dcolumns = [''x'', ''y'', ''z''],
                  partitions = [[[VInt 1, VInt 2, VInt 3]], [[VInt 4, VInt 5, VInt 6]]]\<rparr>)
     = Inr (Column [VInt 1, VInt 4])
   \<and> execute Inr (Value Columnar) (PandasFrame \<lparr>columns = [''x'', ''y''], rows = []\<rparr>)
     = Inr (Column [])"
  using columnar_first_column [of "DaskFrame \<lparr>dcolumns = [''x'', ''y'', ''z''],
                  partitions = [[[VInt 1, VInt 2, VInt 3]], [[VInt 4, VInt 5, VInt 6]]]\<rparr>"
           "\<lparr>columns = [''x'', ''y'', ''z''], rows = [[VInt 1, VInt 2, VInt 3], [VInt 4, VInt 5, VInt 6]]\<rparr>"
           Inr
           "\<lparr>columns = [''x'', ''y'', ''z''], rows = [[VInt 1, VInt 2, VInt 3], [VInt 4, VInt 5, VInt 6]]\<rparr>"]
        columnar_first_column [of "PandasFrame \<lparr>columns = [''x'', ''y''], rows = []\<rparr>"
           "\<lparr>columns = [''x'', ''y''], rows = []\<rparr>" Inr "\<lparr>columns = [''x'', ''y''], rows = []\<rparr>"]
  by (simp add: materialize_def compute_def empty_pdf_def)

subsection \<open>Projection\<close>

text \<open>C10 at the failing input: all projected values are scalars, the assembled frame has
  one row and the parent has no rows.  The claim asks for an output with as many rows as the
  parent (none); the rule concatenates an empty list of frames, which raises
  \<^verbatim>\<open>ValueError\<close>.\<close>

theorem project_scalars_empty_parent:
  "visit_Project (\<lambda>u :: unit. (\<lparr>dcolumns = [''x''], partitions = [[[VInt 1]]]\<rparr>, True))
      \<lparr>dcolumns = [''a''], partitions = [[]]\<rparr> ()
     = Inl (ValueError ''No objects to concatenate'')"
  by (simp add: visit_Project_def dd_len_def dd_concat_def)

text \<open>For a parent with at least two rows the rule does broadcast the scalar row.\<close>

lemma concat_replicate_single:
  "concat (replicate n [r]) = replicate n r"
  by (induction n) auto

lemma concat_concat_replicate:
  "concat (concat (replicate n ps)) = concat (replicate n (concat ps))"
  by (induction n) auto

lemma project_scalars_broadcast:
  assumes "asframe vals = (df, True)" and "dd_len df = 1" and "dd_len parent \<noteq> 1"
    and "0 < dd_len parent"
  shows "\<exists>out. visit_Project asframe parent vals = Inr out
           \<and> dd_len out = dd_len parent
           \<and> concat (partitions out) = replicate (dd_len parent) (hd (concat (partitions df)))"
proof -
  obtain r where r: "concat (partitions df) = [r]"
    using assms(2) by (auto simp: dd_len_def length_Suc_conv)
  obtain n where n: "dd_len parent = Suc n"
    using assms(4) by (cases "dd_len parent") auto
  have "visit_Project asframe parent vals =
          Inr \<lparr>dcolumns = dcolumns df,
               partitions = concat (replicate (dd_len parent) (partitions df))\<rparr>"
    using assms(1,2,3) by (simp add: visit_Project_def dd_concat_def n)
  moreover have "concat (concat (replicate (dd_len parent) (partitions df)))
                 = replicate (dd_len parent) r"
    by (simp only: concat_concat_replicate r concat_replicate_single)
  ultimately show ?thesis
    by (simp add: dd_len_def r)
qed

subsection \<open>Limit\<close>

lemma map_err_Inr:
  assumes "\<And>x. x \<in> set xs \<Longrightarrow> f x = Inr (g x)"
  shows "map_err f xs = Inr (map g xs)"
  using assms by (induction xs) auto

lemma col_positions_fresh:
  assumes "c \<notin> set cs"
  shows "col_positions (cs @ [c]) c = [length cs]"
proof -
  have "filter (\<lambda>i. (cs @ [c]) ! i = c) [0..<length cs] = []"
    using assms by (auto simp: filter_empty_conv nth_append)
  then show ?thesis by (simp add: col_positions_def)
qed

lemma drop_cells_fresh:
  assumes "c \<notin> set cs" "length r = length cs"
  shows "drop_cells (cs @ [c]) [c] (r @ [v]) = r"
proof -
  have "filter (\<lambda>(c', v). c' \<noteq> c) (zip cs r) = zip cs r"
    using assms(1) by (auto simp: filter_id_conv dest: set_zip_leftD)
  then show ?thesis using assms(2) by (simp add: drop_cells_def)
qed

lemma series_ge_ints:
  "series_ge (map VInt is) (VInt b) = Inr (map (\<lambda>i. b \<le> i) is)"
proof -
  have "map_err (ge_scalar (VInt b)) (map VInt is) = Inr (map (\<lambda>i. b \<le> i) is)"
    by (induction "is") (simp_all add: ge_scalar_def)
  then show ?thesis by (simp add: series_ge_def)
qed

lemma series_between_ints:
  "series_between (map VInt is) (VInt l) (VInt h) = Inr (map (\<lambda>i. l \<le> i \<and> i \<le> h) is)"
proof -
  have "map_err (\<lambda>c. case ge_scalar (VInt l) c of
                          Inl e \<Rightarrow> Inl e
                        | Inr a \<Rightarrow> (case le_scalar (VInt h) c of Inl e \<Rightarrow> Inl e | Inr b \<Rightarrow> Inr (a \<and> b)))
          (map VInt is) = Inr (map (\<lambda>i. l \<le> i \<and> i \<le> h) is)"
    by (induction "is") (simp_all add: ge_scalar_def le_scalar_def)
  then show ?thesis by (simp add: series_between_def)
qed

text \<open>One partition: the batch with identifiers, limited, and stripped of the identifier.\<close>

lemma limit_df_batch:
  assumes fresh: "nm \<notin> set cs" and wf: "list_all (\<lambda>r. length r = length cs) rs"
    and off: "arg_value offset = Inr (VInt off)" and n: "arg_value n = Inr nv"
    and nv: "nv = VNull \<or> (\<exists>k. nv = VInt k)"
  shows "\<exists>out. limit_df (batch (cs @ [nm]) (map (\<lambda>i. rs ! i @ [VInt (ident i)]) [0..<length rs]))
                 nm n offset = Inr out
          \<and> map (drop_cells (cs @ [nm]) [nm]) (rows out) =
              rows_with_id (\<lambda>i. off \<le> i \<and> (case nv of VInt k \<Rightarrow> i \<le> off + k - 1 | _ \<Rightarrow> True))
                ident rs"
proof -
  define aug where "aug = map (\<lambda>i. rs ! i @ [VInt (ident i)]) [0..<length rs]"
  define ids where "ids = map ident [0..<length rs]"
  have len: "\<And>i. i < length rs \<Longrightarrow> length (rs ! i) = length cs"
    using wf by (simp add: list_all_length)
  have g: "getitem (batch (cs @ [nm]) aug) nm = Inr (map VInt ids)"
    by (simp add: getitem_def batch_def col_positions_fresh [OF fresh] aug_def ids_def
          comp_def len nth_append)
  have sel: "map (drop_cells (cs @ [nm]) [nm]) (mask_rows aug (map P ids)) =
             rows_with_id P ident rs" for P
  proof -
    have "mask_rows aug (map P ids) =
          map (\<lambda>i. aug ! i) (filter (\<lambda>i. map P ids ! i) [0..<length aug])"
      by (rule mask_rows_index) (simp add: aug_def ids_def)
    also have "filter (\<lambda>i. map P ids ! i) [0..<length aug] =
               filter (\<lambda>i. P (ident i)) [0..<length rs]"
      by (rule filter_cong) (auto simp: aug_def ids_def)
    finally show ?thesis
      using len
      by (auto simp: rows_with_id_def aug_def comp_def drop_cells_fresh [OF fresh])
  qed
  show ?thesis
  proof (cases "nv = VNull")
    case True
    have "limit_df (batch (cs @ [nm]) aug) nm n offset =
            Inr (getitem_mask (batch (cs @ [nm]) aug) (map (\<lambda>i. off \<le> i) ids))"
      by (simp add: limit_df_def off n g True series_ge_ints)
    then show ?thesis
      using sel [of "\<lambda>i. off \<le> i"] True
      by (simp add: aug_def [symmetric] getitem_mask_def batch_def)
  next
    case False
    then obtain k where k: "nv = VInt k" using nv by auto
    have "limit_df (batch (cs @ [nm]) aug) nm n offset =
            Inr (getitem_mask (batch (cs @ [nm]) aug) (map (\<lambda>i. off \<le> i \<and> i \<le> off + k - 1) ids))"
      by (simp add: limit_df_def off n g k int_add_def series_between_ints)
    then show ?thesis
      using sel [of "\<lambda>i. off \<le> i \<and> i \<le> off + k - 1"] k
      by (simp add: aug_def [symmetric] getitem_mask_def batch_def)
  qed
qed

lemma map_err_projr:
  assumes "\<And>x. x \<in> set xs \<Longrightarrow> \<exists>y. f x = Inr y"
  shows "map_err f xs = Inr (map (\<lambda>x. projr (f x)) xs)"
  using assms by (intro map_err_Inr) force

text \<open>C1: for a well-formed partitioned table and a fresh identifier column, whatever
  identifiers the row-identity service assigns, the limit rule keeps in every partition
  exactly the rows whose identifier lies in \<open>[offset, offset + n - 1]\<close> (all rows with
  identifier \<open>\<ge> offset\<close> when \<open>n\<close> is null), and returns them without the identifier
  column; \<open>n\<close> and \<open>offset\<close> are each read from a literal or from cell (0, 0) of a
  one-row, one-column materialised frame.\<close>

theorem limit_keeps_identifier_range:
  assumes wf: "wf_ddf parent" and fresh: "nm \<notin> set (dcolumns parent)"
    and off: "arg_value offset = Inr (VInt off)" and n: "arg_value n = Inr nv"
    and nv: "nv = VNull \<or> (\<exists>k. nv = VInt k)"
  shows "visit_PandasLimit rowid nm parent n offset =
           Inr \<lparr>dcolumns = dcolumns parent,
                partitions =
                  map (\<lambda>j. rows_with_id
                              (\<lambda>i. off \<le> i \<and> (case nv of VInt k \<Rightarrow> i \<le> off + k - 1 | _ \<Rightarrow> True))
                              (rowid j) (partitions parent ! j))
                      [0..<length (partitions parent)]\<rparr>
         \<and> arg_value (Literal v) = Inr v
         \<and> arg_value (Materialized \<lparr>columns = [c], rows = [[v]]\<rparr>) = Inr v"
proof -
  define cs where "cs = dcolumns parent"
  define ps where "ps = partitions parent"
  define A where "A = (\<lambda>j. map (\<lambda>i. ps ! j ! i @ [VInt (rowid j i)]) [0..<length (ps ! j)])"
  define f where "f = (\<lambda>p. limit_df (batch (cs @ [nm]) p) nm n offset)"
  define P where "P = (\<lambda>i. off \<le> i \<and> (case nv of VInt k \<Rightarrow> i \<le> off + k - 1 | _ \<Rightarrow> True))"
  have wfj: "list_all (\<lambda>r. length r = length cs) (ps ! j)" if "j < length ps" for j
    using wf that by (simp add: wf_ddf_def list_all_length cs_def ps_def)
  have step: "\<exists>out. f (A j) = Inr out
                \<and> map (drop_cells (cs @ [nm]) [nm]) (rows out) = rows_with_id P (rowid j) (ps ! j)"
    if "j < length ps" for j
    unfolding f_def A_def P_def
    using limit_df_batch [OF _ wfj [OF that] off n nv, of nm "rowid j"] fresh
    by (simp add: cs_def)
  have aug: "add_globally_consecutive_column rowid parent nm =
               \<lparr>dcolumns = cs @ [nm], partitions = map A [0..<length ps]\<rparr>"
    by (simp add: add_globally_consecutive_column_def cs_def ps_def A_def)
  have "map_err f (map A [0..<length ps]) = Inr (map (\<lambda>p. projr (f p)) (map A [0..<length ps]))"
    by (rule map_err_projr) (use step in fastforce)
  then have mp: "map_partitions (\<lambda>p. limit_df p nm n offset)
                   \<lparr>dcolumns = cs @ [nm], partitions = map A [0..<length ps]\<rparr> =
                 Inr \<lparr>dcolumns = cs @ [nm],
                      partitions = map (\<lambda>j. rows (projr (f (A j)))) [0..<length ps]\<rparr>"
    by (simp add: map_partitions_def f_def comp_def)
  have dr: "drop_columns \<lparr>dcolumns = cs @ [nm],
                      partitions = map (\<lambda>j. rows (projr (f (A j)))) [0..<length ps]\<rparr> [nm] =
            Inr \<lparr>dcolumns = cs,
                 partitions = map (\<lambda>j. map (drop_cells (cs @ [nm]) [nm]) (rows (projr (f (A j)))))
                                  [0..<length ps]\<rparr>"
    using fresh by (auto simp: drop_columns_def cs_def comp_def filter_id_conv)
  have "map (\<lambda>j. map (drop_cells (cs @ [nm]) [nm]) (rows (projr (f (A j))))) [0..<length ps] =
        map (\<lambda>j. rows_with_id P (rowid j) (ps ! j)) [0..<length ps]"
    by (rule map_cong [OF refl]) (use step in force)
  then have "visit_PandasLimit rowid nm parent n offset =
        Inr \<lparr>dcolumns = cs, partitions = map (\<lambda>j. rows_with_id P (rowid j) (ps ! j)) [0..<length ps]\<rparr>"
    by (simp add: visit_PandasLimit_def aug mp dr)
  then show ?thesis
    by (simp add: cs_def ps_def P_def arg_value_def iloc_cell_def)
qed

theorem limit_keeps_identifier_range_witness:
  "visit_PandasLimit (\<lambda>j i. 10 * int j + int i) ''id''
         \<lparr>dcolumns = [''a''], partitions = [[[VInt 1], [VInt 2]], [[VInt 3], [VStr ''x'']]]\<rparr>
         (Literal (VInt 11)) (Materialized \<lparr>columns = [''o''], rows = [[VInt 1]]\<rparr>)
     = Inr \<lparr>dcolumns = [''a''], partitions = [[[VInt 2]], [[VInt 3], [VStr ''x'']]]\<rparr>
   \<and> visit_PandasLimit (\<lambda>j i. 10 * int j + int i) ''id''
         \<lparr>dcolumns = [''a''], partitions = [[[VInt 1], [VInt 2]], [[VInt 3], [VStr ''x'']]]\<rparr>
         (Literal VNull) (Literal (VInt 10))
     = Inr \<lparr>dcolumns = [''a''], partitions = [[], [[VInt 3], [VStr ''x'']]]\<rparr>"
  using limit_keeps_identifier_range [of
          "\<lparr>dcolumns = [''a''], partitions = [[[VInt 1], [VInt 2]], [[VInt 3], [VStr ''x'']]]\<rparr>"
          "''id''" "Materialized \<lparr>columns = [''o''], rows = [[VInt 1]]\<rparr>" 1 "Literal (VInt 11)"
          "VInt 11" "\<lambda>j i. 10 * int j + int i"]
        limit_keeps_identifier_range [of
          "\<lparr>dcolumns = [''a''], partitions = [[[VInt 1], [VInt 2]], [[VInt 3], [VStr ''x'']]]\<rparr>"
          "''id''" "Literal (VInt 10)" 10 "Literal VNull"
          "VNull" "\<lambda>j i. 10 * int j + int i"]
  by (simp add: wf_ddf_def arg_value_def iloc_cell_def rows_with_id_def
        upt_rec [of 0] upt_rec [of 1] upt_rec [of 2])

subsection \<open>Argmin and argmax\<close>

text \<open>The row that wins in a batch: the first row holding the extremal key at position
  \<open>i\<close>.\<close>

definition winner :: "arg_method \<Rightarrow> nat \<Rightarrow> val list list \<Rightarrow> val list" where
  "winner m i rs =
     rs ! first_index (VInt (extremum m (int_keys (map (\<lambda>r. r ! i) rs)))) (map (\<lambda>r. r ! i) rs)"

definition better :: "arg_method \<Rightarrow> int \<Rightarrow> int \<Rightarrow> bool" where
  "better m a b = (case m of ArgMax \<Rightarrow> b \<le> a | ArgMin \<Rightarrow> a \<le> b)"

lemma first_index_in:
  "x \<in> set xs \<Longrightarrow> first_index x xs < length xs \<and> xs ! first_index x xs = x"
  by (induction xs) auto

lemma first_index_append:
  "first_index x (xs @ ys) =
     (if x \<in> set xs then first_index x xs else length xs + first_index x ys)"
  by (induction xs) auto

lemma set_int_keys: "set (int_keys ks) = {i. VInt i \<in> set ks}"
  by (induction ks rule: int_keys.induct) auto

lemma int_keys_append: "int_keys (xs @ ys) = int_keys xs @ int_keys ys"
  by (induction xs rule: int_keys.induct) auto

lemma int_keys_map_VInt: "int_keys (map VInt xs) = xs"
  by (induction xs) auto

lemma extremum_char:
  assumes "xs \<noteq> []"
  shows "(a = extremum m xs) = (a \<in> set xs \<and> (\<forall>y\<in>set xs. better m a y))"
proof (cases m)
  case ArgMax
  have "(a = Max (set xs)) = (a \<in> set xs \<and> (\<forall>y\<in>set xs. y \<le> a))"
    using assms by (auto intro: Max_eqI [symmetric])
  then show ?thesis by (simp add: ArgMax extremum_def better_def)
next
  case ArgMin
  have "(a = Min (set xs)) = (a \<in> set xs \<and> (\<forall>y\<in>set xs. a \<le> y))"
    using assms by (auto intro: Min_eqI [symmetric])
  then show ?thesis by (simp add: ArgMin extremum_def better_def)
qed

lemma extremum_in: "xs \<noteq> [] \<Longrightarrow> extremum m xs \<in> set xs"
  using extremum_char [of xs "extremum m xs" m] by simp

lemma extremum_better: "y \<in> set xs \<Longrightarrow> better m (extremum m xs) y"
  using extremum_char [of xs "extremum m xs" m] by (cases xs) auto

lemma better_antisym: "better m a b \<Longrightarrow> better m b a \<Longrightarrow> a = b"
  by (cases m) (auto simp: better_def)

lemma better_trans: "better m a b \<Longrightarrow> better m b c \<Longrightarrow> better m a c"
  by (cases m) (auto simp: better_def)


definition usable_at :: "nat \<Rightarrow> val list list \<Rightarrow> bool" where
  "usable_at i rs =
     (list_all numeric (map (\<lambda>r. r ! i) rs) \<and> int_keys (map (\<lambda>r. r ! i) rs) \<noteq> [])"

lemma first_index_concat:
  assumes "\<forall>g\<in>set gs. (x \<in> set (map f g)) = (c g = x)" and "x \<in> set (map c gs)"
  shows "concat gs ! first_index x (map f (concat gs)) =
         (gs ! first_index x (map c gs)) ! first_index x (map f (gs ! first_index x (map c gs)))"
  using assms
proof (induction gs)
  case Nil
  then show ?case by simp
next
  case (Cons g gs)
  show ?case
  proof (cases "c g = x")
    case True
    then have "x \<in> set (map f g)" using Cons.prems(1) by simp
    then have "first_index x (map f g) < length g"
      using first_index_in [of x "map f g"] by simp
    then show ?thesis
      using True \<open>x \<in> set (map f g)\<close> by (simp add: first_index_append nth_append)
  next
    case False
    then have nin: "x \<notin> set (map f g)" using Cons.prems(1) by simp
    have "x \<in> set (map c gs)" using Cons.prems(2) False by auto
    then have "concat gs ! first_index x (map f (concat gs)) =
         (gs ! first_index x (map c gs)) ! first_index x (map f (gs ! first_index x (map c gs)))"
      using Cons.IH Cons.prems(1) by simp
    then show ?thesis
      using False nin by (simp add: first_index_append)
  qed
qed

lemma usable_at_key:
  assumes "usable_at i g"
  shows "VInt (extremum m (int_keys (map (\<lambda>r. r ! i) g))) \<in> set (map (\<lambda>r. r ! i) g)"
    and "winner m i g ! i = VInt (extremum m (int_keys (map (\<lambda>r. r ! i) g)))"
    and "first_index (VInt (extremum m (int_keys (map (\<lambda>r. r ! i) g)))) (map (\<lambda>r. r ! i) g)
           < length g"
proof -
  let ?ks = "map (\<lambda>r. r ! i) g"
  let ?x = "VInt (extremum m (int_keys ?ks))"
  have "extremum m (int_keys ?ks) \<in> set (int_keys ?ks)"
    using assms by (intro extremum_in) (simp add: usable_at_def)
  then show in_ks: "?x \<in> set ?ks" by (simp only: set_int_keys mem_Collect_eq)
  have a: "first_index ?x ?ks < length g" and b: "?ks ! first_index ?x ?ks = ?x"
    using first_index_in [OF in_ks] by simp_all
  show "first_index ?x ?ks < length g" by (rule a)
  show "winner m i g ! i = ?x" using a b by (simp add: winner_def)
qed

lemma winner_concat:
  assumes ne: "gs \<noteq> []" and us: "\<forall>g\<in>set gs. usable_at i g"
  shows "usable_at i (concat gs)"
    and "usable_at 0 (map (\<lambda>g. [winner m i g ! i, winner m i g ! j]) gs)"
    and "winner m 0 (map (\<lambda>g. [winner m i g ! i, winner m i g ! j]) gs) =
           [winner m i (concat gs) ! i, winner m i (concat gs) ! j]"
proof -
  define f where "f = (\<lambda>r :: val list. r ! i)"
  define K where "K = (\<lambda>g. int_keys (map f g))"
  define e where "e = (\<lambda>g. extremum m (K g))"
  define bs where "bs = map (\<lambda>g. [winner m i g ! i, winner m i g ! j]) gs"
  have Kne: "K g \<noteq> []" if "g \<in> set gs" for g
    using us that by (simp add: usable_at_def K_def f_def)
  have KG: "int_keys (map f (concat gs)) = concat (map K gs)"
    by (induction gs) (simp_all add: int_keys_append K_def)
  have KGne: "concat (map K gs) \<noteq> []"
    using ne Kne by (cases gs) auto
  show uG: "usable_at i (concat gs)"
    using us KGne KG by (auto simp: usable_at_def f_def list_all_iff)
  have wkey: "winner m i g ! i = VInt (e g)" if "g \<in> set gs" for g
    using usable_at_key(2) [of i g m] us that by (simp add: e_def K_def f_def)
  have bkeys: "map (\<lambda>r. r ! 0) bs = map (\<lambda>g. VInt (e g)) gs"
    by (simp add: bs_def wkey)
  have bints': "int_keys (map (\<lambda>g. VInt (e g)) gs) = map e gs"
    using int_keys_map_VInt [of "map e gs"] by (simp add: comp_def)
  have bints: "int_keys (map (\<lambda>r. r ! 0) bs) = map e gs"
    by (simp only: bkeys bints')
  show "usable_at 0 (map (\<lambda>g. [winner m i g ! i, winner m i g ! j]) gs)"
    using ne bints by (simp add: usable_at_def bkeys bs_def [symmetric] list_all_iff)
  define E where "E = extremum m (map e gs)"
  have Ein: "E \<in> set (map e gs)"
    unfolding E_def using ne by (intro extremum_in) simp
  have ein: "e g \<in> set (K g)" if "g \<in> set gs" for g
    unfolding e_def using Kne [OF that] by (rule extremum_in)
  have EG: "E = extremum m (concat (map K gs))"
  proof (subst extremum_char [OF KGne], intro conjI ballI)
    show "E \<in> set (concat (map K gs))" using Ein ein by auto
  next
    fix y assume "y \<in> set (concat (map K gs))"
    then obtain g where g: "g \<in> set gs" "y \<in> set (K g)" by auto
    have "better m (e g) y" unfolding e_def using g(2) by (rule extremum_better)
    moreover have "better m E (e g)"
      unfolding E_def using g(1) by (intro extremum_better) simp
    ultimately show "better m E y" by (rule better_trans [rotated])
  qed
  have cond: "\<forall>g\<in>set gs. (VInt E \<in> set (map f g)) = (VInt (e g) = VInt E)"
  proof
    fix g assume g: "g \<in> set gs"
    show "(VInt E \<in> set (map f g)) = (VInt (e g) = VInt E)"
    proof
      assume "VInt E \<in> set (map f g)"
      then have EK: "E \<in> set (K g)" by (simp add: K_def set_int_keys)
      have "better m (e g) E" unfolding e_def using EK by (rule extremum_better)
      moreover have "better m E (e g)"
        unfolding E_def using g by (intro extremum_better) simp
      ultimately show "VInt (e g) = VInt E" by (simp add: better_antisym)
    next
      assume "VInt (e g) = VInt E"
      then show "VInt E \<in> set (map f g)"
        using ein [OF g] by (simp add: K_def set_int_keys)
    qed
  qed
  define t where "t = first_index (VInt E) (map (\<lambda>g. VInt (e g)) gs)"
  have Ein': "VInt E \<in> set (map (\<lambda>g. VInt (e g)) gs)" using Ein by auto
  have t1: "t < length gs"
    using first_index_in [OF Ein'] by (simp add: t_def)
  have "map (\<lambda>g. VInt (e g)) gs ! t = VInt E"
    using first_index_in [OF Ein'] by (simp only: t_def)
  then have t2: "VInt (e (gs ! t)) = VInt E" using t1 by simp
  note t = t1 t2
  have "winner m i (concat gs) = concat gs ! first_index (VInt E) (map f (concat gs))"
    by (simp add: winner_def f_def [symmetric] KG EG)
  also have "\<dots> = (gs ! t) ! first_index (VInt E) (map f (gs ! t))"
    unfolding t_def using cond Ein' by (rule first_index_concat)
  also have "\<dots> = winner m i (gs ! t)"
    using t(2) by (simp add: winner_def f_def [symmetric] e_def K_def)
  finally have wG: "winner m i (concat gs) = winner m i (gs ! t)" .
  have "winner m 0 bs = bs ! t"
    by (simp add: winner_def bkeys bints' E_def [symmetric] t_def)
  also have "\<dots> = [winner m i (gs ! t) ! i, winner m i (gs ! t) ! j]"
    using t(1) by (simp add: bs_def)
  finally show "winner m 0 (map (\<lambda>g. [winner m i g ! i, winner m i g ! j]) gs) =
           [winner m i (concat gs) ! i, winner m i (concat gs) ! j]"
    by (simp add: bs_def wG)
qed


lemma partition_all_map:
  "partition_all n (map f xs) = map (map f) (partition_all n xs)"
proof (induction n xs rule: partition_all.induct)
  case (1 n xs)
  show ?case
  proof (cases "n = 0 \<or> xs = []")
    case True
    then show ?thesis by (auto simp: partition_all.simps)
  next
    case False
    then have "partition_all n (map f (drop n xs)) = map (map f) (partition_all n (drop n xs))"
      using 1 by (simp add: drop_map)
    then show ?thesis
      using False
      by (subst partition_all.simps, subst (2) partition_all.simps) (simp add: take_map drop_map)
  qed
qed

lemma concat_partition_all:
  "0 < n \<Longrightarrow> concat (partition_all n xs) = xs"
proof (induction n xs rule: partition_all.induct)
  case (1 n xs)
  show ?case
  proof (cases "xs = []")
    case True
    then show ?thesis by (simp add: partition_all.simps)
  next
    case False
    then have "concat (partition_all n (drop n xs)) = drop n xs"
      using 1 by simp
    then show ?thesis
      using False 1(2) by (subst partition_all.simps) simp
  qed
qed

lemma partition_all_nonempty:
  "g \<in> set (partition_all n xs) \<Longrightarrow> g \<noteq> []"
proof (induction n xs rule: partition_all.induct)
  case (1 n xs)
  show ?case
  proof (cases "n = 0 \<or> xs = []")
    case True
    then show ?thesis using 1(2) by (simp add: partition_all.simps)
  next
    case False
    then have "g = take n xs \<or> g \<in> set (partition_all n (drop n xs))"
      using 1(2) by (subst (asm) partition_all.simps) auto
    then show ?thesis using 1(1) False by auto
  qed
qed

lemma partition_all_subset:
  assumes "0 < n" "g \<in> set (partition_all n xs)"
  shows "set g \<subseteq> set xs"
proof -
  have "set g \<subseteq> set (concat (partition_all n xs))" using assms(2) by auto
  then show ?thesis using assms(1) by (simp add: concat_partition_all)
qed

lemma col_positions_single:
  assumes "col_positions cs c = [i]"
  shows "i < length cs" and "cs ! i = c" and "c \<in> set cs"
proof -
  have "i \<in> set (col_positions cs c)" using assms by simp
  then show "i < length cs" and "cs ! i = c" by (auto simp: col_positions_def)
  then show "c \<in> set cs" by auto
qed

lemma col_positions_pair:
  assumes "k \<noteq> v"
  shows "col_positions [k, v] k = [0]" and "col_positions [k, v] v = [1]"
  using assms by (simp_all add: col_positions_def upt_rec [of 0] upt_rec [of 1])

lemma take_one_drop:
  "n < length xs \<Longrightarrow> take (Suc n - n) (drop n xs) = [xs ! n]"
  by (simp add: take_Suc_conv_app_nth Cons_nth_drop_Suc [symmetric])

lemma series_arg_usable:
  assumes "usable_at i rs"
  shows "series_arg m (map (\<lambda>r. r ! i) rs) =
     Inr (int (first_index (VInt (extremum m (int_keys (map (\<lambda>r. r ! i) rs)))) (map (\<lambda>r. r ! i) rs)))"
proof -
  have "map (\<lambda>r. r ! i) rs \<noteq> []" using assms by (auto simp: usable_at_def)
  then show ?thesis using assms by (simp add: series_arg_def usable_at_def)
qed

lemma chunk_usable:
  assumes k: "col_positions cs k = [i]" and v: "col_positions cs v = [j]"
    and us: "usable_at i rs"
  shows "argminmax_chunk (batch cs rs) k v m =
           Inr (batch [k, v] [[winner m i rs ! i, winner m i rs ! j]])"
proof -
  define n where
    "n = first_index (VInt (extremum m (int_keys (map (\<lambda>r. r ! i) rs)))) (map (\<lambda>r. r ! i) rs)"
  have n: "n < length rs" unfolding n_def using us by (rule usable_at_key(3))
  have g: "getitem (batch cs rs) k = Inr (map (\<lambda>r. r ! i) rs)"
    by (simp add: getitem_def batch_def k)
  have a: "series_arg m (map (\<lambda>r. r ! i) rs) = Inr (int n)"
    unfolding n_def using us by (rule series_arg_usable)
  have s: "select_columns (batch cs rs) [k, v] =
             Inr (batch [k, v] (map (\<lambda>r. [r ! i, r ! j]) rs))"
    using col_positions_single [OF k] col_positions_single [OF v]
    by (simp add: select_columns_def batch_def k v)
  have lo: "slice_bound (length rs) (int n) = n"
    and hi: "slice_bound (length rs) (int n + 1) = Suc n"
    using n by (simp_all add: slice_bound_def min_def nat_add_distrib)
  have "iloc_slice (batch [k, v] (map (\<lambda>r. [r ! i, r ! j]) rs)) (int n) (int n + 1) =
          batch [k, v] [[rs ! n ! i, rs ! n ! j]]"
    using n take_one_drop [of n "map (\<lambda>r. [r ! i, r ! j]) rs"]
    by (simp add: iloc_slice_def batch_def lo hi)
  then show ?thesis
    by (simp add: argminmax_chunk_def g a s winner_def n_def)
qed

lemma aggregate_usable:
  assumes "k \<noteq> v" and us: "usable_at 0 rs"
  shows "argminmax_aggregate (batch [k, v] rs) k v m = Inr (winner m 0 rs ! 1)"
proof -
  define n where
    "n = first_index (VInt (extremum m (int_keys (map (\<lambda>r. r ! 0) rs)))) (map (\<lambda>r. r ! 0) rs)"
  have n: "n < length rs" unfolding n_def using us by (rule usable_at_key(3))
  have a: "series_arg m (map (\<lambda>r. r ! 0) rs) = Inr (int n)"
    unfolding n_def using us by (rule series_arg_usable)
  show ?thesis
    using n
    by (simp add: argminmax_aggregate_def getitem_def batch_def col_positions_pair [OF assms(1)]
          a iloc_item_def winner_def n_def)
qed


lemma concat_map_concat:
  "concat (map concat xss) = concat (concat xss)"
  by (induction xss) auto

lemma map_err_map_Inr:
  assumes "\<And>x. x \<in> set xs \<Longrightarrow> f (h x) = Inr (g x)"
  shows "map_err f (map h xs) = Inr (map g xs)"
  using assms by (induction xs) auto

text \<open>The partial results of the groups \<open>gs\<close>: one winning (key, value) row each.\<close>

definition partials ::
  "arg_method \<Rightarrow> nat \<Rightarrow> nat \<Rightarrow> string \<Rightarrow> string \<Rightarrow> val list list list \<Rightarrow> pdf list" where
  "partials m i j k v gs = map (\<lambda>g. batch [k, v] [[winner m i g ! i, winner m i g ! j]]) gs"

lemma pd_concat_partials:
  assumes "gs \<noteq> []"
  shows "pd_concat (partials m i j k v gs) =
           Inr (batch [k, v] (map (\<lambda>g. [winner m i g ! i, winner m i g ! j]) gs))"
proof -
  obtain g gs' where "gs = g # gs'" using assms by (cases gs) auto
  then show ?thesis
    by (simp add: pd_concat_def partials_def batch_def comp_def)
qed

lemma combine_partials:
  assumes kv: "k \<noteq> v" and ne: "gs \<noteq> []" and us: "\<forall>g\<in>set gs. usable_at i g"
  shows "(case pd_concat (partials m i j k v gs) of
            Inl e \<Rightarrow> Inl e
          | Inr c \<Rightarrow> argminmax_chunk c k v m) =
         Inr (batch [k, v] [[winner m i (concat gs) ! i, winner m i (concat gs) ! j]])"
proof -
  let ?bs = "map (\<lambda>g. [winner m i g ! i, winner m i g ! j]) gs"
  have "argminmax_chunk (batch [k, v] ?bs) k v m =
          Inr (batch [k, v] [[winner m 0 ?bs ! 0, winner m 0 ?bs ! 1]])"
    using col_positions_pair [OF kv] winner_concat(2) [OF ne us]
    by (rule chunk_usable)
  then show ?thesis
    by (simp add: pd_concat_partials [OF ne] winner_concat(3) [OF ne us])
qed

lemma tree_combine_partials:
  assumes se: "2 \<le> se" and kv: "k \<noteq> v"
    and ne: "gs \<noteq> []" and us: "\<forall>g\<in>set gs. usable_at i g"
  shows "\<exists>gs'. tree_combine se (\<lambda>p. argminmax_chunk p k v m) (partials m i j k v gs) =
                  Inr (partials m i j k v gs')
               \<and> gs' \<noteq> [] \<and> (\<forall>g\<in>set gs'. usable_at i g) \<and> concat gs' = concat gs"
  using ne us
proof (induction "length gs" arbitrary: gs rule: less_induct)
  case less
  show ?case
  proof (cases "length gs \<le> se")
    case True
    then have "tree_combine se (\<lambda>p. argminmax_chunk p k v m) (partials m i j k v gs) =
                 Inr (partials m i j k v gs)"
      by (subst tree_combine.simps) (simp add: partials_def)
    then show ?thesis using less.prems by blast
  next
    case False
    define groups where "groups = partition_all se gs"
    define gs2 where "gs2 = map concat groups"
    have pos: "0 < se" using se by simp
    have grp: "G \<noteq> [] \<and> (\<forall>g\<in>set G. usable_at i g)" if "G \<in> set groups" for G
      using that less.prems(2) partition_all_nonempty [of G se gs]
        partition_all_subset [OF pos, of G gs]
      by (auto simp: groups_def)
    have "map_err (\<lambda>g. case pd_concat g of Inl e \<Rightarrow> Inl e | Inr c \<Rightarrow> argminmax_chunk c k v m)
            (map (partials m i j k v) groups) =
          Inr (map (\<lambda>G. batch [k, v] [[winner m i (concat G) ! i, winner m i (concat G) ! j]])
                 groups)"
      by (rule map_err_map_Inr) (use grp kv in \<open>simp add: combine_partials\<close>)
    then have step: "map_err (\<lambda>g. case pd_concat g of Inl e \<Rightarrow> Inl e
                                  | Inr c \<Rightarrow> argminmax_chunk c k v m)
            (partition_all se (partials m i j k v gs)) = Inr (partials m i j k v gs2)"
      by (simp add: partials_def [abs_def] partition_all_map groups_def gs2_def comp_def)
    have unfold: "tree_combine se (\<lambda>p. argminmax_chunk p k v m) (partials m i j k v gs) =
                  tree_combine se (\<lambda>p. argminmax_chunk p k v m) (partials m i j k v gs2)"
      using False se
      by (subst tree_combine.simps) (simp add: step, simp add: partials_def)
    have len: "length gs2 < length gs"
      using length_partition_all_less [of se gs] False se by (simp add: gs2_def groups_def)
    have groups_ne: "groups \<noteq> []"
      using less.prems(1) pos by (subst groups_def, subst partition_all.simps) simp
    have ne2: "gs2 \<noteq> []" using groups_ne by (simp add: gs2_def)
    have us2: "\<forall>g\<in>set gs2. usable_at i g"
      using grp winner_concat(1) by (auto simp: gs2_def)
    have cc: "concat gs2 = concat gs"
      using concat_partition_all [OF pos, of gs]
      by (simp add: gs2_def groups_def concat_map_concat)
    from less.hyps [OF len ne2 us2] show ?thesis
      by (simp add: unfold cc)
  qed
qed

lemma reduction_winner:
  assumes se: "2 \<le> se" and k: "col_positions cs k = [i]" and v: "col_positions cs v = [j]"
    and kv: "k \<noteq> v" and ne: "ps \<noteq> []" and us: "\<forall>p\<in>set ps. usable_at i p"
  shows "reduction se (\<lambda>p. argminmax_chunk p k v m) (\<lambda>p. argminmax_chunk p k v m)
           (\<lambda>p. argminmax_aggregate p k v m) \<lparr>dcolumns = cs, partitions = ps\<rparr> =
         Inr (winner m i (concat ps) ! j)"
proof -
  have chunks: "map_err (\<lambda>p. argminmax_chunk (batch cs p) k v m) ps = Inr (partials m i j k v ps)"
    unfolding partials_def
    by (rule map_err_Inr) (use us in \<open>simp add: chunk_usable [OF k v]\<close>)
  obtain gs' where tree: "tree_combine se (\<lambda>p. argminmax_chunk p k v m) (partials m i j k v ps) =
                  Inr (partials m i j k v gs')"
    and ne': "gs' \<noteq> []" and us': "\<forall>g\<in>set gs'. usable_at i g" and cc: "concat gs' = concat ps"
    using tree_combine_partials [OF se kv ne us] by blast
  let ?bs = "map (\<lambda>g. [winner m i g ! i, winner m i g ! j]) gs'"
  have "argminmax_aggregate (batch [k, v] ?bs) k v m = Inr (winner m 0 ?bs ! 1)"
    using kv winner_concat(2) [OF ne' us'] by (rule aggregate_usable)
  then have "argminmax_aggregate (batch [k, v] ?bs) k v m = Inr (winner m i (concat ps) ! j)"
    by (simp add: winner_concat(3) [OF ne' us'] cc)
  then show ?thesis
    using se by (simp add: reduction_def chunks tree pd_concat_partials [OF ne'])
qed


lemma usable_key_at:
  assumes "usable_key cs k rs"
  obtains i where "col_positions cs k = [i]" and "usable_at i rs"
proof (cases "col_positions cs k")
  case Nil
  then show ?thesis using assms by (simp add: usable_key_def getitem_def batch_def)
next
  case (Cons i rest)
  then have "rest = []"
    using assms by (cases rest) (simp_all add: usable_key_def getitem_def batch_def)
  then show ?thesis
    using assms Cons that [of i]
    by (simp add: usable_key_def getitem_def batch_def usable_at_def)
qed

lemma col_positions_distinct:
  assumes "distinct cs"
  shows "col_positions cs c = [] \<or> (\<exists>j. col_positions cs c = [j])"
proof (cases "col_positions cs c")
  case Nil
  then show ?thesis by simp
next
  case (Cons i rest)
  have d: "distinct (col_positions cs c)" by (simp add: col_positions_def)
  have "rest = []"
  proof (rule ccontr)
    assume "rest \<noteq> []"
    then obtain t where t: "t \<in> set rest" by (cases rest) auto
    have "i \<in> set (col_positions cs c)" "t \<in> set (col_positions cs c)"
      using Cons t by simp_all
    then have "i < length cs" "t < length cs" "cs ! i = cs ! t"
      by (auto simp: col_positions_def)
    then have "i = t" using assms by (simp add: nth_eq_iff_index_eq)
    then show False using d Cons t by simp
  qed
  then show ?thesis using Cons by simp
qed

lemma map_err_nth:
  assumes "map_err f xs = Inr ys"
  shows "length ys = length xs" and "\<And>t. t < length xs \<Longrightarrow> f (xs ! t) = Inr (ys ! t)"
proof -
  show "length ys = length xs" using assms by (rule map_err_length)
  show "f (xs ! t) = Inr (ys ! t)" if "t < length xs" for t
    using assms that
  proof (induction xs arbitrary: ys t)
    case Nil
    then show ?case by simp
  next
    case (Cons x xs)
    then show ?case by (cases t) (auto split: sum.splits)
  qed
qed

text \<open>What \<^verbatim>\<open>df.where\<close> does to one row, when it succeeds.\<close>

definition mask_row :: "string list \<Rightarrow> string option \<Rightarrow> val list \<Rightarrow> val list" where
  "mask_row cs w r =
     (case w of
        None \<Rightarrow> r
      | Some c \<Rightarrow>
          (case col_positions cs c of
             [i] \<Rightarrow> (case r ! i of VBool b \<Rightarrow> if b then r else map (\<lambda>_. VNull) r | _ \<Rightarrow> r)
           | _ \<Rightarrow> r))"

lemma df_where_rows:
  assumes "df_where (batch cs p) w = Inr out"
  shows "rows out = map (mask_row cs w) p"
proof (cases w)
  case None
  then show ?thesis using assms by (auto simp: df_where_def mask_row_def [abs_def] batch_def)
next
  case (Some c)
  obtain cond where cond: "getitem (batch cs p) c = Inr cond"
    using assms Some by (auto simp: df_where_def split: sum.splits)
  then obtain i where i: "col_positions cs c = [i]" and cond': "cond = map (\<lambda>r. r ! i) p"
    by (auto simp: getitem_def batch_def split: list.splits)
  obtain ms where ms: "map_err mask_cell cond = Inr ms"
    using assms Some cond by (auto simp: df_where_def split: sum.splits)
  have out: "rows out = map (\<lambda>(r, m). if m then r else map (\<lambda>_. VNull) r) (zip p ms)"
    using assms Some cond ms by (auto simp: df_where_def batch_def)
  have len: "length ms = length p"
    using map_err_nth(1) [OF ms] by (simp add: cond')
  have cell: "p ! t ! i = VBool (ms ! t)" if "t < length p" for t
    using map_err_nth(2) [OF ms, of t] that
    by (auto simp: cond' mask_cell_def split: val.splits)
  show ?thesis
    unfolding out
    by (rule nth_equalityI) (simp_all add: len mask_row_def Some i cell)
qed

lemma dd_where_partitions:
  assumes "dd_where d w = Inr d'"
  shows "dcolumns d' = dcolumns d"
    and "partitions d' = map (map (mask_row (dcolumns d) w)) (partitions d)"
proof -
  obtain outs where outs:
    "map_err (\<lambda>p. df_where (batch (dcolumns d) p) w) (partitions d) = Inr outs"
    and d': "d' = \<lparr>dcolumns = dcolumns d, partitions = map rows outs\<rparr>"
    using assms by (auto simp: dd_where_def split: sum.splits)
  show "dcolumns d' = dcolumns d" by (simp add: d')
  have "map rows outs = map (map (mask_row (dcolumns d) w)) (partitions d)"
  proof (rule nth_equalityI)
    show "length (map rows outs) = length (map (map (mask_row (dcolumns d) w)) (partitions d))"
      using map_err_nth(1) [OF outs] by simp
  next
    fix t assume "t < length (map rows outs)"
    then have t: "t < length (partitions d)" using map_err_nth(1) [OF outs] by simp
    then have "rows (outs ! t) = map (mask_row (dcolumns d) w) (partitions d ! t)"
      using map_err_nth(2) [OF outs t] by (intro df_where_rows)
    then show "map rows outs ! t = map (map (mask_row (dcolumns d) w)) (partitions d) ! t"
      using t map_err_nth(1) [OF outs] by simp
  qed
  then show "partitions d' = map (map (mask_row (dcolumns d) w)) (partitions d)"
    by (simp add: d')
qed

lemma reduction_missing_value:
  assumes se: "2 \<le> se" and k: "col_positions cs k = [i]" and v: "v \<notin> set cs"
    and ne: "ps \<noteq> []" and us: "\<forall>p\<in>set ps. usable_at i p"
  shows "reduction se (\<lambda>p. argminmax_chunk p k v m) (\<lambda>p. argminmax_chunk p k v m)
           (\<lambda>p. argminmax_aggregate p k v m) \<lparr>dcolumns = cs, partitions = ps\<rparr> =
         Inl (KeyError v)"
proof -
  obtain p ps' where ps: "ps = p # ps'" using ne by (cases ps) auto
  have "usable_at i p" using us ps by simp
  then have "argminmax_chunk (batch cs p) k v m = Inl (KeyError v)"
    using col_positions_single(3) [OF k] v
    by (simp add: argminmax_chunk_def getitem_def k series_arg_usable select_columns_def batch_def)
  then show ?thesis using se by (simp add: reduction_def ps)
qed

lemma getitem_same_label:
  "columns c = [k, k] \<Longrightarrow> getitem c k = Inl AttributeError"
  by (simp add: getitem_def col_positions_def upt_rec [of 0] upt_rec [of 1])

lemma reduction_same_label:
  assumes se: "2 \<le> se" and k: "col_positions cs k = [i]"
    and ne: "ps \<noteq> []" and us: "\<forall>p\<in>set ps. usable_at i p"
  shows "reduction se (\<lambda>p. argminmax_chunk p k k m) (\<lambda>p. argminmax_chunk p k k m)
           (\<lambda>p. argminmax_aggregate p k k m) \<lparr>dcolumns = cs, partitions = ps\<rparr> =
         Inl AttributeError"
proof -
  define parts where "parts = partials m i i k k ps"
  have chunks: "map_err (\<lambda>p. argminmax_chunk (batch cs p) k k m) ps = Inr parts"
    unfolding parts_def partials_def
    by (rule map_err_Inr) (use us in \<open>simp add: chunk_usable [OF k k]\<close>)
  have cols: "\<forall>p\<in>set parts. columns p = [k, k]"
    by (simp add: parts_def partials_def batch_def)
  have "parts \<noteq> []" using ne by (simp add: parts_def partials_def)
  then obtain q qs where parts: "parts = q # qs" by (cases parts) auto
  have "(case tree_combine se (\<lambda>p. argminmax_chunk p k k m) parts of
           Inl e \<Rightarrow> Inl e
         | Inr parts' \<Rightarrow>
             (case pd_concat parts' of
                Inl e \<Rightarrow> Inl e
              | Inr c \<Rightarrow> argminmax_aggregate c k k m)) = Inl AttributeError"
  proof (cases "length parts \<le> se")
    case True
    then have "tree_combine se (\<lambda>p. argminmax_chunk p k k m) parts = Inr parts"
      by (subst tree_combine.simps) simp
    moreover have "pd_concat parts = Inr \<lparr>columns = [k, k], rows = concat (map rows parts)\<rparr>"
      using cols by (simp add: pd_concat_def parts)
    ultimately show ?thesis
      by (simp add: argminmax_aggregate_def getitem_same_label)
  next
    case False
    then have "partition_all se parts = take se parts # partition_all se (drop se parts)"
      using se parts by (subst partition_all.simps) auto
    moreover have "take se parts = q # take (se - 1) qs"
      using se parts by (cases se) auto
    moreover have "pd_concat (q # take (se - 1) qs) =
        Inr \<lparr>columns = [k, k], rows = concat (map rows (q # take (se - 1) qs))\<rparr>"
      using cols parts by (simp add: pd_concat_def)
    ultimately have XX: "map_err (\<lambda>g. case pd_concat g of Inl e \<Rightarrow> Inl e
                                  | Inr c \<Rightarrow> argminmax_chunk c k k m)
            (partition_all se parts) = Inl AttributeError"
      by (simp add: argminmax_chunk_def getitem_same_label)
    then have "tree_combine se (\<lambda>p. argminmax_chunk p k k m) parts = Inl AttributeError"
      using False se by (subst tree_combine.simps) simp
    then show ?thesis by simp
  qed
  then show ?thesis using se by (simp add: reduction_def chunks)
qed

text \<open>The reduction over a dask frame whose partitions all have a usable key: the outcome
  depends only on the columns and on the rows in their order.\<close>

definition reduction_outcome :: "arg_method \<Rightarrow> string list \<Rightarrow> string \<Rightarrow> string \<Rightarrow> val list list \<Rightarrow> error + val" where
  "reduction_outcome m cs k v rs =
     (if v \<notin> set cs then Inl (KeyError v)
      else if v = k then Inl AttributeError
      else Inr (winner m (hd (col_positions cs k)) rs ! hd (col_positions cs v)))"

lemma reduction_outcome:
  assumes se: "2 \<le> se" and dist: "distinct cs" and ne: "ps \<noteq> []"
    and us: "list_all (usable_key cs k) ps"
  shows "reduction se (\<lambda>p. argminmax_chunk p k v m) (\<lambda>p. argminmax_chunk p k v m)
           (\<lambda>p. argminmax_aggregate p k v m) \<lparr>dcolumns = cs, partitions = ps\<rparr> =
         reduction_outcome m cs k v (concat ps)"
proof -
  obtain p where "p \<in> set ps" using ne by (cases ps) auto
  then have "usable_key cs k p" using us by (simp add: list_all_iff)
  then obtain i where i: "col_positions cs k = [i]" by (rule usable_key_at)
  have us': "\<forall>p\<in>set ps. usable_at i p"
  proof
    fix p assume "p \<in> set ps"
    then have "usable_key cs k p" using us by (simp add: list_all_iff)
    then show "usable_at i p" using i by (auto elim: usable_key_at)
  qed
  consider "v \<notin> set cs" | "v = k" | j where "v \<in> set cs" "v \<noteq> k" "col_positions cs v = [j]"
  proof -
    have "v \<in> set cs \<Longrightarrow> col_positions cs v \<noteq> []"
      by (auto simp: col_positions_def filter_empty_conv in_set_conv_nth)
    then show ?thesis using col_positions_distinct [OF dist, of v] that by blast
  qed
  then show ?thesis
  proof cases
    case 1
    then show ?thesis
      using reduction_missing_value [OF se i 1 ne us'] by (simp add: reduction_outcome_def)
  next
    case 2
    then show ?thesis
      using reduction_same_label [OF se i ne us'] col_positions_single(3) [OF i]
      by (simp add: reduction_outcome_def)
  next
    case 3
    then show ?thesis
      using reduction_winner [OF se i 3(3) _ ne us'] by (simp add: reduction_outcome_def i)
  qed
qed

text \<open>C2, as stated, fails twice.  With key \<open>k\<close> and value \<open>v\<close>, argmax over the rows
  \<open>(1, 10), (5, 2), (3, 9)\<close> yields the value at the largest key, 2 and not 10, as one
  partition and as three.  And the same rows held with an additional empty partition raise
  \<^verbatim>\<open>ValueError\<close>, because the chunk function takes the argmax of an empty series.\<close>

theorem argmax_example_counterexample:
  "visit_ArgMinMax 8 False ''v'' ''k'' None
     (Dask \<lparr>dcolumns = [''k'', ''v''],
            partitions = [[[VInt 1, VInt 10], [VInt 5, VInt 2], [VInt 3, VInt 9]]]\<rparr>)
     = Inr (VInt 2)
   \<and> visit_ArgMinMax 8 False ''v'' ''k'' None
     (Dask \<lparr>dcolumns = [''k'', ''v''],
            partitions = [[[VInt 1, VInt 10]], [[VInt 5, VInt 2]], [[VInt 3, VInt 9]]]\<rparr>)
     = Inr (VInt 2)
   \<and> Inr (VInt 2) \<noteq> (Inr (VInt 10) :: error + val)
   \<and> visit_ArgMinMax 8 False ''v'' ''k'' None
     (Dask \<lparr>dcolumns = [''k'', ''v''],
            partitions = [[[VInt 1, VInt 10], [VInt 5, VInt 2], [VInt 3, VInt 9]], []]\<rparr>)
     = Inl (ValueError ''attempt to get argmax of an empty sequence'')"
  by code_simp

lemma argmax_example:
  "visit_ArgMinMax 8 False ''v'' ''k'' None
     (Dask \<lparr>dcolumns = [''k'', ''v''],
            partitions = [[[VInt 1, VInt 10], [VInt 5, VInt 2], [VInt 3, VInt 9]]]\<rparr>)
     = Inr (VInt 2)"
  "visit_ArgMinMax 8 False ''v'' ''k'' None
     (Dask \<lparr>dcolumns = [''k'', ''v''],
            partitions = [[[VInt 1, VInt 10]], [[VInt 5, VInt 2]], [[VInt 3, VInt 9]]]\<rparr>)
     = Inr (VInt 2)"
  by code_simp+

text \<open>C2, amended: for two dask frames with the same distinct columns and the same rows in
  the same order, each split into one or more partitions, when the optional filter applies
  and every partition keeps a row with a non-null integer key, the chunk, combine and
  aggregate reduction gives the same outcome for both, whatever the fan-in of the combine
  tree; argmax over the rows \<open>(1, 10), (5, 2), (3, 9)\<close> yields 2 as one partition and as
  three single-row partitions.\<close>

theorem argminmax_partition_independent:
  assumes cols: "dcolumns d1 = dcolumns d2" and dist: "distinct (dcolumns d1)"
    and rows: "concat (partitions d1) = concat (partitions d2)"
    and ne: "partitions d1 \<noteq> []" "partitions d2 \<noteq> []"
    and se: "2 \<le> se1" "2 \<le> se2"
    and w1: "dd_where d1 w = Inr m1" and w2: "dd_where d2 w = Inr m2"
    and us1: "list_all (usable_key (dcolumns d1) key_name) (partitions m1)"
    and us2: "list_all (usable_key (dcolumns d2) key_name) (partitions m2)"
  shows "visit_ArgMinMax se1 is_argmin arg_name key_name w (Dask d1) =
           visit_ArgMinMax se2 is_argmin arg_name key_name w (Dask d2)
         \<and> visit_ArgMinMax 8 False ''v'' ''k'' None
              (Dask \<lparr>dcolumns = [''k'', ''v''],
                     partitions = [[[VInt 1, VInt 10], [VInt 5, VInt 2], [VInt 3, VInt 9]]]\<rparr>)
             = Inr (VInt 2)
         \<and> visit_ArgMinMax 8 False ''v'' ''k'' None
              (Dask \<lparr>dcolumns = [''k'', ''v''],
                     partitions = [[[VInt 1, VInt 10]], [[VInt 5, VInt 2]], [[VInt 3, VInt 9]]]\<rparr>)
             = Inr (VInt 2)"
proof -
  define m where "m = (if is_argmin then ArgMin else ArgMax)"
  define cs where "cs = dcolumns d1"
  have c1: "dcolumns m1 = cs" and p1: "partitions m1 = map (map (mask_row cs w)) (partitions d1)"
    using dd_where_partitions [OF w1] by (simp_all add: cs_def)
  have c2: "dcolumns m2 = cs" and p2: "partitions m2 = map (map (mask_row cs w)) (partitions d2)"
    using dd_where_partitions [OF w2] cols by (simp_all add: cs_def)
  have same: "concat (partitions m1) = concat (partitions m2)"
    using rows by (simp add: p1 p2 map_concat [symmetric])
  have m1: "m1 = \<lparr>dcolumns = cs, partitions = partitions m1\<rparr>"
    and m2: "m2 = \<lparr>dcolumns = cs, partitions = partitions m2\<rparr>"
    using c1 c2 by simp_all
  have r1: "reduction se1 (\<lambda>p. argminmax_chunk p key_name arg_name m)
              (\<lambda>p. argminmax_chunk p key_name arg_name m)
              (\<lambda>p. argminmax_aggregate p key_name arg_name m) m1 =
            reduction_outcome m cs key_name arg_name (concat (partitions m1))"
    by (subst m1, rule reduction_outcome) (use se dist ne us1 in \<open>simp_all add: cs_def p1\<close>)
  have r2: "reduction se2 (\<lambda>p. argminmax_chunk p key_name arg_name m)
              (\<lambda>p. argminmax_chunk p key_name arg_name m)
              (\<lambda>p. argminmax_aggregate p key_name arg_name m) m2 =
            reduction_outcome m cs key_name arg_name (concat (partitions m2))"
    by (subst m2, rule reduction_outcome) (use se dist ne us2 cols in \<open>simp_all add: cs_def p2\<close>)
  have "visit_ArgMinMax se1 is_argmin arg_name key_name w (Dask d1) =
           visit_ArgMinMax se2 is_argmin arg_name key_name w (Dask d2)"
    by (simp add: visit_ArgMinMax_def argminmax_agg_def w1 w2 m_def [symmetric] r1 r2 same)
  then show ?thesis using argmax_example by simp
qed

theorem argminmax_partition_independent_witness:
  "visit_ArgMinMax 8 True ''v'' ''k'' (Some ''w'')
     (Dask \<lparr>dcolumns = [''k'', ''v'', ''w''],
            partitions = [[[VInt 1, VInt 10, VBool False], [VInt 5, VInt 2, VBool True]],
                          [[VInt 3, VInt 9, VBool True]]]\<rparr>) =
   visit_ArgMinMax 2 True ''v'' ''k'' (Some ''w'')
     (Dask \<lparr>dcolumns = [''k'', ''v'', ''w''],
            partitions = [[[VInt 1, VInt 10, VBool False], [VInt 5, VInt 2, VBool True],
                           [VInt 3, VInt 9, VBool True]]]\<rparr>)"
proof -
  let ?d1 = "\<lparr>dcolumns = [''k'', ''v'', ''w''],
            partitions = [[[VInt 1, VInt 10, VBool False], [VInt 5, VInt 2, VBool True]],
                          [[VInt 3, VInt 9, VBool True]]]\<rparr>"
  let ?d2 = "\<lparr>dcolumns = [''k'', ''v'', ''w''],
            partitions = [[[VInt 1, VInt 10, VBool False], [VInt 5, VInt 2, VBool True],
                           [VInt 3, VInt 9, VBool True]]]\<rparr>"
  let ?m1 = "\<lparr>dcolumns = [''k'', ''v'', ''w''],
            partitions = [[[VNull, VNull, VNull], [VInt 5, VInt 2, VBool True]],
                          [[VInt 3, VInt 9, VBool True]]]\<rparr>"
  let ?m2 = "\<lparr>dcolumns = [''k'', ''v'', ''w''],
            partitions = [[[VNull, VNull, VNull], [VInt 5, VInt 2, VBool True],
                           [VInt 3, VInt 9, VBool True]]]\<rparr>"
  have w1: "dd_where ?d1 (Some ''w'') = Inr ?m1" by code_simp
  have w2: "dd_where ?d2 (Some ''w'') = Inr ?m2" by code_simp
  have u1: "list_all (usable_key (dcolumns ?d1) ''k'') (partitions ?m1)" by code_simp
  have u2: "list_all (usable_key (dcolumns ?d2) ''k'') (partitions ?m2)" by code_simp
  show ?thesis
    using argminmax_partition_independent [of ?d1 ?d2 8 2 "Some ''w''" ?m1 ?m2 "''k''" True "''v''",
            OF _ _ _ _ _ _ _ w1 w2 u1 u2]
    by simp
qed

subsection \<open>Sort\<close>

lemma str_le_total: "str_le a b \<or> str_le b a"
  by (induction a b rule: str_le.induct) auto

lemma str_le_trans: "str_le a b \<Longrightarrow> str_le b c \<Longrightarrow> str_le a c"
proof (induction a b arbitrary: c rule: str_le.induct)
  case (1 ys)
  then show ?case by simp
next
  case (2 x xs)
  then show ?case by simp
next
  case (3 x xs y ys)
  then show ?case by (cases c) auto
qed

lemma val_le_total: "val_le a b \<or> val_le b a"
  using str_le_total [of "str_of a" "str_of b"] by (auto simp: val_le_def)

lemma val_le_trans: "val_le a b \<Longrightarrow> val_le b c \<Longrightarrow> val_le a c"
  using str_le_trans [of "str_of a" "str_of b" "str_of c"]
  by (auto simp: val_le_def split: if_splits)

lemma cell_le_total: "cell_le asc na a b \<or> cell_le asc na b a"
  using val_le_total [of a b] by (cases na) (auto simp: cell_le_def)

lemma cell_le_trans: "cell_le asc na a b \<Longrightarrow> cell_le asc na b c \<Longrightarrow> cell_le asc na a c"
  using val_le_trans [of a b c] val_le_trans [of c b a]
  by (cases na) (auto simp: cell_le_def split: if_splits)

lemma keys_le_total:
  "length ka = length kb \<Longrightarrow> keys_le ascs na ka kb \<or> keys_le ascs na kb ka"
proof (induction ascs na ka kb rule: keys_le.induct)
  case (1 asc ascs na a ka b kb)
  then show ?case using cell_le_total [of asc na a b] by auto
qed simp_all

lemma keys_le_trans:
  "length ka = length kb \<Longrightarrow> length kb = length kc \<Longrightarrow>
   keys_le ascs na ka kb \<Longrightarrow> keys_le ascs na kb kc \<Longrightarrow> keys_le ascs na ka kc"
proof (induction ascs arbitrary: ka kb kc)
  case Nil
  then show ?case by simp
next
  case (Cons asc ascs)
  show ?case
  proof (cases ka)
    case Nil
    then show ?thesis by simp
  next
    case ka: (Cons a ka')
    then obtain b kb' where kb: "kb = b # kb'" using Cons.prems(1) by (cases kb) auto
    then obtain c kc' where kc: "kc = c # kc'" using Cons.prems(2) by (cases kc) auto
    have len: "length ka' = length kb'" "length kb' = length kc'"
      using Cons.prems(1,2) by (simp_all add: ka kb kc)
    have ab: "if cell_le asc na a b \<and> cell_le asc na b a then keys_le ascs na ka' kb'
              else cell_le asc na a b"
      using Cons.prems(3) by (simp add: ka kb)
    have bc: "if cell_le asc na b c \<and> cell_le asc na c b then keys_le ascs na kb' kc'
              else cell_le asc na b c"
      using Cons.prems(4) by (simp add: kb kc)
    show ?thesis
    proof (cases "cell_le asc na a c \<and> cell_le asc na c a")
      case True
      have "cell_le asc na a b" using ab by (auto split: if_splits)
      moreover have "cell_le asc na b c" using bc by (auto split: if_splits)
      moreover have "cell_le asc na b a"
        using True \<open>cell_le asc na b c\<close> by (blast intro: cell_le_trans)
      moreover have "cell_le asc na c b"
        using True \<open>cell_le asc na a b\<close> by (blast intro: cell_le_trans)
      ultimately have "keys_le ascs na ka' kb'" "keys_le ascs na kb' kc'"
        using ab bc by simp_all
      then have "keys_le ascs na ka' kc'" using Cons.IH len by blast
      then show ?thesis using True by (simp add: ka kc)
    next
      case False
      have "cell_le asc na a b" using ab by (auto split: if_splits)
      moreover have "cell_le asc na b c" using bc by (auto split: if_splits)
      ultimately have "cell_le asc na a c" by (rule cell_le_trans)
      then show ?thesis using False by (simp add: ka kc)
    qed
  qed
qed

lemma mset_insort_by: "mset (insort_by le x xs) = add_mset x (mset xs)"
  by (induction xs) auto

lemma mset_sort_by: "mset (sort_by le xs) = mset xs"
  by (induction xs) (simp_all add: sort_by_def mset_insort_by)

lemma set_insort_by: "set (insort_by le x xs) = insert x (set xs)"
  by (induction xs) auto

lemma sorted_insort_by:
  assumes total: "\<And>x y. le x y \<or> le y x" and trans: "\<And>x y z. le x y \<Longrightarrow> le y z \<Longrightarrow> le x z"
  shows "sorted_wrt le xs \<Longrightarrow> sorted_wrt le (insort_by le x xs)"
proof (induction xs)
  case Nil
  then show ?case by simp
next
  case (Cons y ys)
  show ?case
  proof (cases "le x y")
    case True
    then show ?thesis using Cons.prems trans by auto
  next
    case False
    then have "le y x" using total by blast
    then show ?thesis using Cons False by (auto simp: set_insort_by)
  qed
qed

lemma sorted_sort_by:
  assumes total: "\<And>x y. le x y \<or> le y x" and trans: "\<And>x y z. le x y \<Longrightarrow> le y z \<Longrightarrow> le x z"
  shows "sorted_wrt le (sort_by le xs)"
  by (induction xs) (simp_all add: sort_by_def sorted_insort_by [OF total trans])

lemma map2_map2_shape:
  assumes "map length xss = sh" "map length yss = sh"
  shows "map length (map2 (map2 f) xss yss) = sh"
  using assms
  by (auto simp: list_eq_iff_nth_eq dest: arg_cong [where f = length])

lemma map2_map2_nth:
  assumes "map length xss = sh" "map length yss = sh" "j < length sh" "t < sh ! j"
  shows "map2 (map2 f) xss yss ! j ! t = f (xss ! j ! t) (yss ! j ! t)"
proof -
  have l: "length xss = length sh" "length yss = length sh"
    using assms(1,2) by (auto dest: arg_cong [where f = length])
  have "length (xss ! j) = sh ! j" "length (yss ! j) = sh ! j"
    using assms l by (auto simp: list_eq_iff_nth_eq)
  then show ?thesis using assms l by simp
qed

lemma nested_eqI:
  assumes "map length xss = sh" "map length yss = sh"
    and "\<And>j t. j < length sh \<Longrightarrow> t < sh ! j \<Longrightarrow> xss ! j ! t = yss ! j ! t"
  shows "xss = yss"
proof (rule nth_equalityI)
  show l: "length xss = length yss"
    using assms(1,2) by (auto dest: arg_cong [where f = length])
  fix j assume j: "j < length xss"
  then have js: "j < length sh" using assms(1) by (auto dest: arg_cong [where f = length])
  have lx: "length (xss ! j) = sh ! j" and ly: "length (yss ! j) = sh ! j"
    using assms(1,2) j l by (auto simp: list_eq_iff_nth_eq)
  show "xss ! j = yss ! j"
    by (rule nth_equalityI) (use lx ly assms(3) [OF js] in auto)
qed

lemma concat_map2_map2:
  assumes "map length xss = map length yss"
  shows "concat (map2 (map2 f) xss yss) = map2 f (concat xss) (concat yss)"
  using assms
proof (induction xss arbitrary: yss)
  case Nil
  then show ?case by simp
next
  case (Cons xs xss)
  then obtain ys yss' where yss: "yss = ys # yss'" by (cases yss) auto
  then show ?case using Cons by simp
qed

lemma key_cells_shape:
  assumes "list_all (\<lambda>k. map length k = map length parts) keys"
  shows "map length (key_cells parts keys) = map length parts"
  using assms
proof (induction keys)
  case Nil
  then show ?case by (simp add: key_cells.simps comp_def)
next
  case (Cons k ks)
  then have "map length k = map length parts"
    and "map length (key_cells parts ks) = map length parts" by simp_all
  then show ?case
    unfolding key_cells.simps by (rule map2_map2_shape)
qed

lemma key_cells_cong:
  assumes "map length (p1 :: 'a list list) = map length (p2 :: 'a list list)"
  shows "key_cells p1 keys = key_cells p2 keys"
proof (induction keys)
  case Nil
  have r: "map (map (\<lambda>_. [])) p = map (\<lambda>n. replicate n []) (map length p)"
    for p :: "'a list list"
    by (simp add: map_replicate_const)
  have "map (map (\<lambda>_. [])) p1 = map (map (\<lambda>_. [])) p2"
    unfolding r [of p1] r [of p2] assms ..
  then show ?case by (simp add: key_cells.simps)
next
  case (Cons k ks)
  then show ?case by (simp add: key_cells.simps)
qed

lemma concat_key_cells_Cons:
  assumes "list_all (\<lambda>k. map length k = map length parts) (k # ks)"
  shows "concat (key_cells parts (k # ks)) = map2 (#) (concat k) (concat (key_cells parts ks))"
    and "length (concat k) = length (concat (key_cells parts ks))"
proof -
  have sh: "map length (key_cells parts ks) = map length parts"
    using assms by (intro key_cells_shape) simp
  then have sh': "map length k = map length (key_cells parts ks)" using assms by simp
  show "concat (key_cells parts (k # ks)) = map2 (#) (concat k) (concat (key_cells parts ks))"
    unfolding key_cells.simps using sh' by (rule concat_map2_map2)
  show "length (concat k) = length (concat (key_cells parts ks))"
    using sh' by (simp add: length_concat)
qed

lemma key_cells_width:
  assumes "list_all (\<lambda>k. map length k = map length parts) keys"
    and "kc \<in> set (concat (key_cells parts keys))"
  shows "length kc = length keys"
  using assms
proof (induction keys arbitrary: kc)
  case Nil
  then show ?case by (auto simp: key_cells.simps)
next
  case (Cons k ks)
  obtain c kc' where "kc = c # kc'" "kc' \<in> set (concat (key_cells parts ks))"
    using Cons.prems(2) unfolding concat_key_cells_Cons(1) [OF Cons.prems(1)]
    by (auto dest: set_zip_rightD)
  then show ?case using Cons.IH [of kc'] Cons.prems(1) by simp
qed

lemma key_cells_column:
  assumes "list_all (\<lambda>k. map length k = map length parts) keys" and "t < length keys"
  shows "map (\<lambda>kc. kc ! t) (concat (key_cells parts keys)) = concat (keys ! t)"
  using assms
proof (induction keys arbitrary: t)
  case Nil
  then show ?case by simp
next
  case (Cons k ks)
  note eq = concat_key_cells_Cons(1) [OF Cons.prems(1)]
  note len = concat_key_cells_Cons(2) [OF Cons.prems(1)]
  show ?case
  proof (cases t)
    case 0
    have "map (\<lambda>kc. kc ! 0) (map2 (#) (concat k) (concat (key_cells parts ks))) = concat k"
      using len by (intro nth_equalityI) simp_all
    then show ?thesis by (simp add: eq 0)
  next
    case (Suc t')
    then have IH: "map (\<lambda>kc. kc ! t') (concat (key_cells parts ks)) = concat (ks ! t')"
      using Cons.IH [of t'] Cons.prems by simp
    have "map (\<lambda>kc. kc ! Suc t') (map2 (#) (concat k) (concat (key_cells parts ks))) =
          map (\<lambda>kc. kc ! t') (concat (key_cells parts ks))"
      using len by (intro nth_equalityI) simp_all
    then show ?thesis by (simp add: eq Suc IH)
  qed
qed


lemma col_positions_absent: "c \<notin> set cs \<Longrightarrow> col_positions cs c = []"
  by (auto simp: col_positions_def filter_empty_conv)

lemma col_positions_nth:
  assumes "distinct cs" "t < length cs"
  shows "col_positions cs (cs ! t) = [t]"
proof -
  have "t \<in> set (col_positions cs (cs ! t))"
    using assms(2) by (simp add: col_positions_def)
  then show ?thesis
    using col_positions_distinct [OF assms(1), of "cs ! t"] by auto
qed

lemma col_positions_appended:
  assumes "distinct names" "set names \<inter> set cols = {}" "t < length names"
  shows "col_positions (cols @ names) (names ! t) = [length cols + t]"
proof -
  have c: "names ! t \<notin> set cols" using assms(2) nth_mem [OF assms(3)] by blast
  have m: "map (\<lambda>u. length cols + u) [0..<length names] =
        [length cols..<length cols + length names]"
    by (rule nth_equalityI) simp_all
  have "[0..<length cols + length names] =
        [0..<length cols] @ [length cols..<length cols + length names]"
    by (rule upt_add_eq_append) simp
  then have up: "[0..<length cols + length names] =
            [0..<length cols] @ map (\<lambda>u. length cols + u) [0..<length names]"
    by (simp only: m)
  have "filter (\<lambda>i. (cols @ names) ! i = names ! t) [0..<length cols] = []"
    using c by (auto simp: filter_empty_conv nth_append in_set_conv_nth)
  moreover have "filter (\<lambda>i. (cols @ names) ! i = names ! t)
                   (map (\<lambda>u. length cols + u) [0..<length names]) =
                 map (\<lambda>u. length cols + u) (col_positions names (names ! t))"
    by (simp add: filter_map comp_def col_positions_def)
  ultimately show ?thesis
    using col_positions_nth [OF assms(1,3)] by (simp add: col_positions_def [of "cols @ names"] up)
qed

lemma positions_of_names:
  assumes "distinct names" "set names \<inter> set cols = {}"
  shows "concat (map (col_positions (cols @ names)) names) =
           [length cols..<length cols + length names]"
proof -
  have "map (col_positions (cols @ names)) names =
        map (\<lambda>t. col_positions (cols @ names) (names ! t)) [0..<length names]"
    by (rule nth_equalityI) simp_all
  also have "\<dots> = map (\<lambda>t. [length cols + t]) [0..<length names]"
    by (rule map_cong [OF refl]) (simp add: col_positions_appended [OF assms])
  finally have "concat (map (col_positions (cols @ names)) names) =
                map (\<lambda>t. length cols + t) [0..<length names]"
    by (simp add: concat_map_singleton)
  also have "\<dots> = [length cols..<length cols + length names]"
    by (rule nth_equalityI) simp_all
  finally show ?thesis .
qed

lemma key_of_appended:
  assumes "length r = n" "length kc = m"
  shows "map (\<lambda>i. (r @ kc) ! i) [n..<n + m] = kc"
  using assms by (intro nth_equalityI) (simp_all add: nth_append)

lemma drop_cells_appended:
  assumes "set names \<inter> set cols = {}" "length r = length cols" "length kc = length names"
  shows "drop_cells (cols @ names) names (r @ kc) = r"
proof -
  have "filter (\<lambda>(c, v). c \<notin> set names) (zip cols r) = zip cols r"
    using assms(1) by (auto simp: filter_id_conv dest: set_zip_leftD)
  moreover have "filter (\<lambda>(c, v). c \<notin> set names) (zip names kc) = []"
    by (auto simp: filter_empty_conv dest: set_zip_leftD)
  ultimately show ?thesis using assms(2,3) by (simp add: drop_cells_def)
qed

lemma assign_col_fresh:
  assumes "nm \<notin> set (dcolumns d)"
  shows "assign_col d (nm, ser) =
           \<lparr>dcolumns = dcolumns d @ [nm],
            partitions = map2 (map2 (\<lambda>r c. r @ [c])) (partitions d) ser\<rparr>"
  using assms by (simp add: assign_col_def col_positions_absent)

lemma dd_assign_fresh:
  assumes "distinct names" "set names \<inter> set (dcolumns d) = {}" "length names = length keys"
    and "list_all (\<lambda>k. map length k = map length (partitions d)) keys"
  shows "dd_assign d (zip names keys) =
           \<lparr>dcolumns = dcolumns d @ names,
            partitions = map2 (map2 (@)) (partitions d) (key_cells (partitions d) keys)\<rparr>"
  using assms
proof (induction keys arbitrary: names d)
  case Nil
  have e: "map length (map (map (\<lambda>_. [])) (partitions d)) = map length (partitions d)"
    by (simp add: comp_def)
  have "map2 (map2 (@)) (partitions d) (map (map (\<lambda>_. [])) (partitions d)) = partitions d"
  proof (rule nested_eqI [where sh = "map length (partitions d)"])
    show "map length (map2 (map2 (@)) (partitions d) (map (map (\<lambda>_. [])) (partitions d))) =
          map length (partitions d)"
      using refl e by (rule map2_map2_shape)
    show "map length (partitions d) = map length (partitions d)" ..
    fix j t assume "j < length (map length (partitions d))" "t < map length (partitions d) ! j"
    then show "map2 (map2 (@)) (partitions d) (map (map (\<lambda>_. [])) (partitions d)) ! j ! t =
               partitions d ! j ! t"
      using map2_map2_nth [OF refl e, of j t "(@)"] by simp
  qed
  then show ?case using Nil by (simp add: dd_assign_def key_cells.simps)
next
  case (Cons k ks)
  obtain n ns where names: "names = n # ns" using Cons.prems(3) by (cases names) auto
  define sh where "sh = map length (partitions d)"
  define d1 where "d1 = assign_col d (n, k)"
  have fresh: "n \<notin> set (dcolumns d)" using Cons.prems(2) names by auto
  have d1: "d1 = \<lparr>dcolumns = dcolumns d @ [n],
                  partitions = map2 (map2 (\<lambda>r c. r @ [c])) (partitions d) k\<rparr>"
    unfolding d1_def using fresh by (rule assign_col_fresh)
  have k: "map length k = sh" and ks: "list_all (\<lambda>k. map length k = sh) ks"
    using Cons.prems(4) by (simp_all add: sh_def)
  have sh1: "map length (partitions d1) = sh"
    unfolding d1 ddf.simps using _ k by (rule map2_map2_shape) (simp add: sh_def)
  have kc: "map length (key_cells (partitions d) ks) = sh"
    using ks unfolding sh_def by (rule key_cells_shape)
  have p1: "distinct ns" using Cons.prems(1) names by simp
  have p2: "set ns \<inter> set (dcolumns d1) = {}"
    using Cons.prems(1,2) names by (auto simp: d1)
  have p3: "length ns = length ks" using Cons.prems(3) names by simp
  have p4: "list_all (\<lambda>k. map length k = map length (partitions d1)) ks"
    using ks by (simp only: sh1)
  have "dd_assign d1 (zip ns ks) =
           \<lparr>dcolumns = dcolumns d1 @ ns,
            partitions = map2 (map2 (@)) (partitions d1) (key_cells (partitions d1) ks)\<rparr>"
    using p1 p2 p3 p4 by (rule Cons.IH)
  moreover have "key_cells (partitions d1) ks = key_cells (partitions d) ks"
    using sh1 by (intro key_cells_cong) (simp add: sh_def)
  moreover have "map2 (map2 (@)) (partitions d1) (key_cells (partitions d) ks) =
                 map2 (map2 (@)) (partitions d) (key_cells (partitions d) (k # ks))"
  proof (rule nested_eqI [where sh = sh])
    show "map length (map2 (map2 (@)) (partitions d1) (key_cells (partitions d) ks)) = sh"
      using sh1 kc by (rule map2_map2_shape)
    have kc': "map length (key_cells (partitions d) (k # ks)) = sh"
      unfolding key_cells.simps using k kc by (rule map2_map2_shape)
    show "map length (map2 (map2 (@)) (partitions d) (key_cells (partitions d) (k # ks))) = sh"
      using _ kc' by (rule map2_map2_shape) (simp add: sh_def)
    fix j t assume jt: "j < length sh" "t < sh ! j"
    have pd: "map length (partitions d) = sh" by (simp add: sh_def)
    have "partitions d1 ! j ! t = partitions d ! j ! t @ [k ! j ! t]"
      unfolding d1 ddf.simps by (rule map2_map2_nth [OF pd k jt])
    then have "map2 (map2 (@)) (partitions d1) (key_cells (partitions d) ks) ! j ! t =
          (partitions d ! j ! t @ [k ! j ! t]) @ key_cells (partitions d) ks ! j ! t"
      by (simp only: map2_map2_nth [OF sh1 kc jt])
    moreover have "key_cells (partitions d) (k # ks) ! j ! t =
          k ! j ! t # key_cells (partitions d) ks ! j ! t"
      unfolding key_cells.simps by (rule map2_map2_nth [OF k kc jt])
    then have "map2 (map2 (@)) (partitions d) (key_cells (partitions d) (k # ks)) ! j ! t =
          partitions d ! j ! t @ (k ! j ! t # key_cells (partitions d) ks ! j ! t)"
      by (simp only: map2_map2_nth [OF pd kc' jt])
    ultimately show "map2 (map2 (@)) (partitions d1) (key_cells (partitions d) ks) ! j ! t =
          map2 (map2 (@)) (partitions d) (key_cells (partitions d) (k # ks)) ! j ! t"
      by simp
  qed
  moreover have "dd_assign d (zip names (k # ks)) = dd_assign d1 (zip ns ks)"
    by (simp add: dd_assign_def names d1_def)
  moreover have "dcolumns d1 @ ns = dcolumns d @ names"
    by (simp add: d1 names)
  ultimately show ?case by (simp only:)
qed


lemma sort_mixed_flags:
  assumes "list_ex id (map nulls_first op_keys)" "\<not> list_all id (map nulls_first op_keys)"
  shows "visit_Sort names op_keys parent keys =
           Inl (ValueError ''dask does not support specifying null ordering for individual columns'')"
  using assms by (simp add: visit_Sort_def Let_def)

lemma sort_agreeing_flags:
  assumes agree: "\<not> (list_ex id (map nulls_first op_keys) \<and> \<not> list_all id (map nulls_first op_keys))"
    and wf: "wf_ddf parent" and dist: "distinct names"
    and fresh: "set names \<inter> set (dcolumns parent) = {}"
    and ln: "length names = length keys" and lo: "length op_keys = length keys"
    and al: "list_all (aligned parent) keys"
    and cmp: "list_all (\<lambda>k. comparable (concat k)) keys"
  shows "\<exists>out tagged.
           visit_Sort names op_keys parent keys = Inr out
         \<and> dcolumns out = dcolumns parent
         \<and> mset tagged =
             mset (zip (concat (key_cells (partitions parent) keys)) (concat (partitions parent)))
         \<and> sorted_wrt (\<lambda>a b. keys_le (map ascending op_keys)
                                 (if list_all id (map nulls_first op_keys) then NaFirst else NaLast)
                                 (fst a) (fst b)) tagged
         \<and> concat (partitions out) = map snd tagged"
proof -
  define cols where "cols = dcolumns parent"
  define parts where "parts = partitions parent"
  define n where "n = length cols"
  define m where "m = length names"
  define ascs where "ascs = map ascending op_keys"
  define na where "na = (if list_all id (map nulls_first op_keys) then NaFirst else NaLast)"
  define KC where "KC = key_cells parts keys"
  define R where "R = concat parts"
  define KR where "KR = concat KC"
  define key where "key = (\<lambda>a :: val list. map (\<lambda>i. a ! i) [n..<n + m])"
  define le where "le = (\<lambda>a b. keys_le ascs na (key a) (key b))"
  define rs where "rs = map2 (@) R KR"
  define S where "S = sort_by le rs"
  define dropc where "dropc = drop_cells (cols @ names) names"
  define tagged where "tagged = map (\<lambda>a. (key a, dropc a)) S"
  have al': "list_all (\<lambda>k. map length k = map length parts) keys"
    using al by (simp add: list_all_iff aligned_def parts_def)
  have shKC: "map length KC = map length parts"
    unfolding KC_def using al' by (rule key_cells_shape)
  have lenR: "length R = length KR"
    using shKC by (simp add: R_def KR_def length_concat)
  have wR: "length r = n" if "r \<in> set R" for r
    using wf that by (auto simp: wf_ddf_def list_all_iff R_def parts_def n_def cols_def)
  have wK: "length kc = m" if "kc \<in> set KR" for kc
    using key_cells_width [OF al'] that ln by (simp add: KR_def KC_def m_def)
  have assign: "dd_assign parent (zip names keys) =
                  \<lparr>dcolumns = cols @ names, partitions = map2 (map2 (@)) parts KC\<rparr>"
    unfolding cols_def parts_def KC_def
    using dist fresh ln al' by (intro dd_assign_fresh) (simp_all add: parts_def)
  have rs: "concat (map2 (map2 (@)) parts KC) = rs"
    unfolding rs_def R_def KR_def using shKC by (intro concat_map2_map2) simp
  have pos: "concat (map (col_positions (cols @ names)) names) = [n..<n + m]"
    unfolding n_def m_def cols_def using dist fresh by (rule positions_of_names)
  have column: "map (\<lambda>a. a ! (n + t)) rs = concat (keys ! t)" if "t < m" for t
  proof -
    have "map (\<lambda>a. a ! (n + t)) rs = map (\<lambda>kc. kc ! t) KR"
      unfolding rs_def
      by (rule nth_equalityI) (use lenR wR in \<open>simp_all add: nth_append\<close>)
    then show ?thesis
      using key_cells_column [OF al', of t] that ln by (simp add: KR_def KC_def m_def)
  qed
  have comparable_all: "list_all (\<lambda>i. comparable (map (\<lambda>a. a ! i) rs)) [n..<n + m]"
  proof -
    have "comparable (map (\<lambda>a. a ! i) rs)" if "i \<in> set [n..<n + m]" for i
    proof -
      have "n \<le> i" "i < n + m" using that by simp_all
      then have "i = n + (i - n)" "i - n < m" by simp_all
      then obtain t where t: "i = n + t" "t < m" by blast
      have "comparable (concat (keys ! t))"
        using cmp t(2) ln by (simp add: list_all_length m_def)
      then show ?thesis by (simp add: t column)
    qed
    then show ?thesis by (simp add: list_all_iff)
  qed
  have present: "filter (\<lambda>c. c \<notin> set (cols @ names)) names = []"
    by (simp add: filter_empty_conv)
  have sorted_df: "sort_values \<lparr>dcolumns = cols @ names, partitions = map2 (map2 (@)) parts KC\<rparr>
                     names ascs na = Inr \<lparr>dcolumns = cols @ names, partitions = [S]\<rparr>"
    using comparable_all ln lo
    by (simp add: sort_values_def present pos rs Let_def ascs_def S_def le_def key_def)
  have kept: "filter (\<lambda>c. c \<notin> set names) cols = cols"
    using fresh by (auto simp: filter_id_conv cols_def)
  have dropped: "drop_columns \<lparr>dcolumns = cols @ names, partitions = [S]\<rparr> names =
                   Inr \<lparr>dcolumns = cols, partitions = [map dropc S]\<rparr>"
    by (simp add: drop_columns_def present kept dropc_def)
  have choose: "(if list_all id (map nulls_first op_keys) then Inr NaFirst
                 else if \<not> list_ex id (map nulls_first op_keys) then Inr NaLast
                 else Inl (ValueError
                   ''dask does not support specifying null ordering for individual columns''))
                = (Inr na :: error + na_position)"
    using agree by (auto simp: na_def)
  have result: "visit_Sort names op_keys parent keys =
                  Inr \<lparr>dcolumns = cols, partitions = [map dropc S]\<rparr>"
    unfolding visit_Sort_def Let_def choose
    by (simp add: assign ascs_def [symmetric] sorted_df dropped)
  have total: "le x y \<or> le y x" for x y
    unfolding le_def by (rule keys_le_total) (simp add: key_def)
  have trans: "le x y \<Longrightarrow> le y z \<Longrightarrow> le x z" for x y z
    unfolding le_def by (rule keys_le_trans [where kb = "key y"]) (simp_all add: key_def)
  have sorted: "sorted_wrt (\<lambda>a b. keys_le ascs na (fst a) (fst b)) tagged"
    using sorted_sort_by [of le rs, OF total trans]
    by (simp add: tagged_def sorted_wrt_map S_def le_def)
  have pair: "(key (r @ kc), dropc (r @ kc)) = (kc, r)" if "(r, kc) \<in> set (zip R KR)" for r kc
  proof -
    have r: "length r = n" and kc: "length kc = m"
      using that wR wK by (auto dest: set_zip_leftD set_zip_rightD)
    have "key (r @ kc) = kc" unfolding key_def using r kc by (rule key_of_appended)
    moreover have "dropc (r @ kc) = r"
      unfolding dropc_def using fresh r kc
      by (intro drop_cells_appended) (simp_all add: cols_def n_def m_def)
    ultimately show ?thesis by simp
  qed
  have "map (\<lambda>a. (key a, dropc a)) rs = map (\<lambda>(r, kc). (kc, r)) (zip R KR)"
    unfolding rs_def map_map by (rule map_cong [OF refl]) (use pair in auto)
  also have "\<dots> = zip KR R" by (simp add: zip_commute [of KR R])
  finally have tagged_rs: "map (\<lambda>a. (key a, dropc a)) rs = zip KR R" .
  have "mset tagged = image_mset (\<lambda>a. (key a, dropc a)) (mset S)"
    by (simp add: tagged_def)
  also have "\<dots> = mset (map (\<lambda>a. (key a, dropc a)) rs)"
    by (simp add: S_def mset_sort_by)
  finally have perm: "mset tagged = mset (zip KR R)" by (simp only: tagged_rs)
  show ?thesis
    using result perm sorted
    by (intro exI [of _ "\<lparr>dcolumns = cols, partitions = [map dropc S]\<rparr>"] exI [of _ tagged])
       (simp add: cols_def KR_def KC_def R_def parts_def ascs_def na_def tagged_def comp_def)
qed

text \<open>C4: when the \<^verbatim>\<open>nulls_first\<close> flags of the keys disagree (some true, some false)
  the sort rule raises \<^verbatim>\<open>ValueError\<close> at translation, whatever the table and the key
  columns are.  When they agree, for a well-formed table with aligned, comparable key
  columns and fresh temporary names, the rule succeeds with the parent's columns (the
  temporary key columns are gone) and its rows are the parent's rows rearranged so that
  their key tuples are in order, under the single null placement the flags name.\<close>

theorem sort_null_ordering:
  "(list_ex id (map nulls_first op_keys) \<and> \<not> list_all id (map nulls_first op_keys) \<longrightarrow>
      visit_Sort names op_keys parent keys =
        Inl (ValueError ''dask does not support specifying null ordering for individual columns''))
   \<and> (\<not> (list_ex id (map nulls_first op_keys) \<and> \<not> list_all id (map nulls_first op_keys))
        \<and> op_keys \<noteq> [] \<and> length op_keys = length keys \<and> length names = length keys
        \<and> distinct names \<and> set names \<inter> set (dcolumns parent) = {}
        \<and> wf_ddf parent \<and> list_all (aligned parent) keys
        \<and> list_all (\<lambda>k. comparable (concat k)) keys \<longrightarrow>
      (\<exists>out tagged.
           visit_Sort names op_keys parent keys = Inr out
         \<and> dcolumns out = dcolumns parent
         \<and> mset tagged =
             mset (zip (concat (key_cells (partitions parent) keys)) (concat (partitions parent)))
         \<and> sorted_wrt (\<lambda>a b. keys_le (map ascending op_keys)
                                 (if list_all id (map nulls_first op_keys) then NaFirst else NaLast)
                                 (fst a) (fst b)) tagged
         \<and> concat (partitions out) = map snd tagged))"
  using sort_mixed_flags [of op_keys names parent keys]
    sort_agreeing_flags [of op_keys parent names keys]
  by blast

theorem sort_null_ordering_witness:
  "visit_Sort [''s1'', ''s2'']
      [\<lparr>ascending = True, nulls_first = True\<rparr>, \<lparr>ascending = True, nulls_first = False\<rparr>]
      \<lparr>dcolumns = [''a''], partitions = [[[VInt 1], [VInt 2]], [[VInt 3]]]\<rparr>
      [[[VInt 2, VNull], [VInt 1]], [[VStr ''x'', VStr ''y''], [VStr ''z'']]]
     = Inl (ValueError ''dask does not support specifying null ordering for individual columns'')
   \<and> (\<exists>out tagged.
         visit_Sort [''s1'', ''s2'']
            [\<lparr>ascending = True, nulls_first = False\<rparr>, \<lparr>ascending = False, nulls_first = False\<rparr>]
            \<lparr>dcolumns = [''a''], partitions = [[[VInt 1], [VInt 2]], [[VInt 3]]]\<rparr>
            [[[VInt 2, VNull], [VInt 1]], [[VStr ''x'', VStr ''y''], [VStr ''z'']]] = Inr out
       \<and> dcolumns out = [''a'']
       \<and> mset tagged = {#([VInt 2, VStr ''x''], [VInt 1]), ([VNull, VStr ''y''], [VInt 2]),
                          ([VInt 1, VStr ''z''], [VInt 3])#}
       \<and> sorted_wrt (\<lambda>a b. keys_le [True, False] NaLast (fst a) (fst b)) tagged
       \<and> concat (partitions out) = map snd tagged)"
  using sort_null_ordering [of
          "[\<lparr>ascending = True, nulls_first = True\<rparr>, \<lparr>ascending = True, nulls_first = False\<rparr>]"
          "[''s1'', ''s2'']"
          "\<lparr>dcolumns = [''a''], partitions = [[[VInt 1], [VInt 2]], [[VInt 3]]]\<rparr>"
          "[[[VInt 2, VNull], [VInt 1]], [[VStr ''x'', VStr ''y''], [VStr ''z'']]]"]
        sort_null_ordering [of
          "[\<lparr>ascending = True, nulls_first = False\<rparr>, \<lparr>ascending = False, nulls_first = False\<rparr>]"
          "[''s1'', ''s2'']"
          "\<lparr>dcolumns = [''a''], partitions = [[[VInt 1], [VInt 2]], [[VInt 3]]]\<rparr>"
          "[[[VInt 2, VNull], [VInt 1]], [[VStr ''x'', VStr ''y''], [VStr ''z'']]]"]
  by (simp add: wf_ddf_def aligned_def comparable_def key_cells.simps)

subsection \<open>Grouped aggregation\<close>

lemma groupby_present:
  assumes "list_all (\<lambda>c. length (col_positions (columns df) c) = 1) by_cols"
  shows "\<exists>ps. groupby df by_cols = Inr (df, ps)"
proof -
  have "\<exists>ps. map_err (\<lambda>c. case col_positions (columns df) c of
                            [] \<Rightarrow> Inl (KeyError c)
                          | [i] \<Rightarrow> Inr i
                          | _ \<Rightarrow> Inl (ValueError ''Grouper is not 1-dimensional'')) by_cols = Inr ps"
    using assms
  proof (induction by_cols)
    case Nil
    then show ?case by simp
  next
    case (Cons c cs)
    then obtain i where "col_positions (columns df) c = [i]"
      by (auto simp: length_Suc_conv)
    moreover obtain ps where "map_err (\<lambda>c. case col_positions (columns df) c of
                            [] \<Rightarrow> Inl (KeyError c)
                          | [i] \<Rightarrow> Inr i
                          | _ \<Rightarrow> Inl (ValueError ''Grouper is not 1-dimensional'')) cs = Inr ps"
      using Cons by auto
    ultimately show ?case by simp
  qed
  then show ?thesis by (auto simp: groupby_def)
qed

lemma groupby_apply_empty:
  assumes "rows df = []"
  shows "groupby_apply infer (df, ps) by_cols metric meta = Inr meta"
  using assms by (simp add: groupby_apply_def group_keys_def)

lemma rename_identity:
  assumes "\<And>c k. c \<in> fst ` set cols \<Longrightarrow> (c, k) \<in> set renames \<Longrightarrow> k = c"
  shows "rename_columns \<lparr>tcolumns = cols, trows = rs\<rparr> renames = \<lparr>tcolumns = cols, trows = rs\<rparr>"
proof -
  have "(case map_of (rev renames) c of Some k \<Rightarrow> k | None \<Rightarrow> c) = c"
    if "c \<in> fst ` set cols" for c
  proof (cases "map_of (rev renames) c")
    case None
    then show ?thesis by simp
  next
    case (Some k)
    then have "(c, k) \<in> set renames" using map_of_SomeD [OF Some] by simp
    then show ?thesis using assms that Some by simp
  qed
  note same = this
  have "map (\<lambda>(c, dt). (case map_of (rev renames) c of Some k \<Rightarrow> k | None \<Rightarrow> c, dt)) cols = cols"
  proof (rule map_idI)
    fix x assume x: "x \<in> set cols"
    obtain c dt where cd: "x = (c, dt)" by (cases x)
    have "c \<in> fst ` set cols" using x cd by force
    then show "(case x of (c, dt) \<Rightarrow>
                 (case map_of (rev renames) c of Some k \<Rightarrow> k | None \<Rightarrow> c, dt)) = x"
      by (simp add: cd same)
  qed
  then show ?thesis by (simp add: rename_columns_def)
qed

text \<open>C3, as stated, fails.  With the group \<open>g\<close> and the metrics \<open>count\<close> and
  \<open>total\<close> over an empty table, the result has no rows and three columns, not exactly the
  two metric columns: \<^verbatim>\<open>reset_index\<close> puts the group key \<open>g\<close> in front of them.  And
  with the groups \<open>a\<close> (column \<open>b\<close>) and \<open>c\<close> (column \<open>a\<close>) the columns of the empty
  result are \<open>c, c, count\<close>: the template index is named by the output names, and
  \<^verbatim>\<open>rename\<close>, which maps column names to output names, renames the output name \<open>a\<close>
  once more.\<close>

theorem grouped_aggregate_empty_counterexample:
  "visit_PandasAggregate (\<lambda>t. t) (\<lambda>d vs. Object) (\<lambda>r. (\<lparr>tcolumns = [], trows = []\<rparr>, True))
      \<lparr>dcolumns = [''g'', ''x''], partitions = [[], []]\<rparr>
      [(''g'', ''g'')]
      [(''count'', Int64, \<lambda>f. Inl TypeError), (''total'', Float64, \<lambda>f. Inl TypeError)]
     = Inr \<lparr>tcolumns = [(''g'', Object), (''count'', Int64), (''total'', Float64)], trows = []\<rparr>
   \<and> visit_PandasAggregate (\<lambda>t. t) (\<lambda>d vs. Object) (\<lambda>r. (\<lparr>tcolumns = [], trows = []\<rparr>, True))
      \<lparr>dcolumns = [''a'', ''b''], partitions = [[]]\<rparr>
      [(''a'', ''b''), (''c'', ''a'')]
      [(''count'', Int64, \<lambda>f. Inl TypeError)]
     = Inr \<lparr>tcolumns = [(''c'', Object), (''c'', Object), (''count'', Int64)], trows = []\<rparr>"
  by code_simp

text \<open>On a table with rows the same groups come out under their output names \<open>a, c\<close>:
  there the index carries the column names, which \<^verbatim>\<open>rename\<close> maps once.\<close>

lemma grouped_aggregate_rename_nonempty:
  "visit_PandasAggregate (\<lambda>t. t) (\<lambda>d vs. d) (\<lambda>r. (\<lparr>tcolumns = [], trows = []\<rparr>, True))
      \<lparr>dcolumns = [''a'', ''b''], partitions = [[[VInt 1, VInt 2]]]\<rparr>
      [(''a'', ''b''), (''c'', ''a'')]
      [(''count'', Int64, \<lambda>f. Inr (VInt 1))]
     = Inr \<lparr>tcolumns = [(''a'', Object), (''c'', Object), (''count'', Int64)],
            trows = [[VInt 2, VInt 1, VInt 1]]\<rparr>"
  by code_simp

text \<open>C3, amended: for every grouped aggregation with at least one group and one metric
  over a table without rows, where every group column is a column of the table (under a
  label that occurs once), no group output name is a metric name, and the column name of a
  group is its own output name or no output name of a group or metric at all, the rule
  raises nothing and returns a frame with zero rows whose columns are the group keys, under
  their output names, followed by exactly the declared metric columns with their declared
  dtypes.  The types come from the templates alone: neither the metric functions nor the
  type inference of pandas have any influence.  What the rule returns when a group's column
  name is another output name is left open.\<close>

theorem grouped_aggregate_empty:
  assumes g: "groups \<noteq> []" and m: "metrics \<noteq> []"
    and empty: "concat (partitions parent) = []"
    and present: "list_all (\<lambda>c. length (col_positions (dcolumns parent) c) = 1) (map snd groups)"
    and disjoint: "set (map fst groups) \<inter> set (map fst metrics) = {}"
    and harmless: "list_all (\<lambda>(k, v). v = k \<or> v \<notin> set (map fst groups) \<union> set (map fst metrics)) groups"
  shows "visit_PandasAggregate from_ibis infer asframe parent groups metrics =
           Inr \<lparr>tcolumns = map (\<lambda>(k, v). (k, Object)) groups
                            @ map (\<lambda>(nm, ty, f). (nm, from_ibis ty)) metrics,
                trows = []\<rparr>"
proof -
  define names where "names = map fst groups"
  define metas where
    "metas = map (\<lambda>(nm, ty, f). (nm, empty_series nm (from_ibis ty) names)) metrics"
  obtain ps where grouped: "groupby (compute parent) (map snd groups) = Inr (compute parent, ps)"
    using groupby_present [of "compute parent" "map snd groups"] present
    by (auto simp: compute_def)
  have applied: "map_err (\<lambda>(nm, ty, metric).
                  case groupby_apply infer (compute parent, ps) (map snd groups) metric
                         (empty_series nm (from_ibis ty) names) of
                    Inl e \<Rightarrow> Inl e
                  | Inr s \<Rightarrow> Inr (nm, s)) metrics = Inr metas"
    unfolding metas_def
    by (rule map_err_Inr) (use empty in \<open>auto simp: groupby_apply_empty compute_def\<close>)
  obtain nm ty f rest where mt: "metrics = (nm, ty, f) # rest"
    using m by (cases metrics) auto
  have no_entries: "concat (map (\<lambda>(n, s). map fst (entries s)) metas) = []"
    by (auto simp: metas_def empty_series_def)
  have cols: "map (\<lambda>(n, s). (n, sdtype s)) metas = map (\<lambda>(nm, ty, f). (nm, from_ibis ty)) metrics"
    by (auto simp: metas_def empty_series_def)
  have concat: "concat_columns metas =
                  Inr \<lparr>xnames = names, xdtypes = map (\<lambda>_. Object) names,
                       xcolumns = map (\<lambda>(nm, ty, f). (nm, from_ibis ty)) metrics,
                       xentries = []\<rparr>"
    unfolding concat_columns_def no_entries cols
    by (simp add: metas_def mt empty_series_def)
  have fstcols: "map fst (map (\<lambda>(nm, ty, f). (nm, from_ibis ty)) metrics) = map fst metrics"
    by auto
  have noclash: "filter (\<lambda>n. n \<in> set (map fst (map (\<lambda>(nm, ty, f). (nm, from_ibis ty)) metrics)))
                   names = []"
  proof -
    have "n \<notin> set (map fst metrics)" if "n \<in> set names" for n
      using disjoint that by (auto simp: names_def)
    then show ?thesis unfolding fstcols filter_empty_conv by blast
  qed
  have keycols: "zip names (map (\<lambda>_. Object) names) = map (\<lambda>(k, v). (k, Object)) groups"
    by (auto simp: names_def zip_map_map zip_same_conv_map)
  have reset: "reset_index_columns
                 \<lparr>xnames = names, xdtypes = map (\<lambda>_. Object) names,
                  xcolumns = map (\<lambda>(nm, ty, f). (nm, from_ibis ty)) metrics, xentries = []\<rparr> =
               Inr \<lparr>tcolumns = map (\<lambda>(k, v). (k, Object)) groups
                                @ map (\<lambda>(nm, ty, f). (nm, from_ibis ty)) metrics,
                    trows = []\<rparr>"
    by (simp only: reset_index_columns_def indexed.select_convs noclash list.simps keycols)
  have ren: "rename_columns
               \<lparr>tcolumns = map (\<lambda>(k, v). (k, Object)) groups
                            @ map (\<lambda>(nm, ty, f). (nm, from_ibis ty)) metrics, trows = []\<rparr>
               (map (\<lambda>(k, v). (v, k)) groups) =
             \<lparr>tcolumns = map (\<lambda>(k, v). (k, Object)) groups
                            @ map (\<lambda>(nm, ty, f). (nm, from_ibis ty)) metrics, trows = []\<rparr>"
  proof (rule rename_identity)
    fix c k
    assume c: "c \<in> fst ` set (map (\<lambda>(k, v). (k, Object)) groups
                            @ map (\<lambda>(nm, ty, f). (nm, from_ibis ty)) metrics)"
      and r: "(c, k) \<in> set (map (\<lambda>(k, v). (v, k)) groups)"
    have "c \<in> set (map fst groups) \<union> set (map fst metrics)" using c by force
    moreover have "(k, c) \<in> set groups" using r by auto
    ultimately show "k = c" using harmless by (auto simp: list_all_iff)
  qed
  show ?thesis
    using g by (simp add: visit_PandasAggregate_def grouped names_def [symmetric] applied concat reset ren)
qed

theorem grouped_aggregate_empty_witness:
  "visit_PandasAggregate (\<lambda>t. t) (\<lambda>d vs. Object) (\<lambda>r. (\<lparr>tcolumns = [], trows = []\<rparr>, True))
      \<lparr>dcolumns = [''g'', ''x''], partitions = [[], []]\<rparr>
      [(''grp'', ''g'')]
      [(''count'', Int64, \<lambda>f. Inl TypeError), (''total'', Float64, \<lambda>f. Inr VNull)]
     = Inr \<lparr>tcolumns = [(''grp'', Object), (''count'', Int64), (''total'', Float64)], trows = []\<rparr>"
  using grouped_aggregate_empty [of "[(''grp'', ''g'')]"
          "[(''count'', Int64, \<lambda>f. Inl TypeError), (''total'', Float64, \<lambda>f. Inr VNull)]"
          "\<lparr>dcolumns = [''g'', ''x''], partitions = [[], []]\<rparr>"
          "\<lambda>t. t" "\<lambda>d vs. Object" "\<lambda>r. (\<lparr>tcolumns = [], trows = []\<rparr>, True)"]
  by (simp add: col_positions_def upt_rec [of 0] upt_rec [of 1])

end
